theory Spec2Isabelle
  imports Main
begin

section \<open>Python strings\<close>

text \<open>
  The text handled by \<^verbatim>\<open>document_processor.py\<close> is a Python \<^verbatim>\<open>str\<close>. It is modelled as a
  HOL \<open>string\<close> whose characters are the code points below 256 (Latin-1): \<open>length\<close> is
  Python's \<^verbatim>\<open>len\<close>, and the character classes below are Python's on that range.
\<close>

definition code :: "char \<Rightarrow> nat" where
  "code c = of_char c"

text \<open>\<^verbatim>\<open>str.isspace\<close> of one character, which is also what \<^verbatim>\<open>str.strip()\<close> removes and
  what \<^verbatim>\<open>\s\<close> matches: TAB, LF, VT, FF, CR, FS, GS, RS, US, space, NEL and NBSP.\<close>

definition isspace :: "char \<Rightarrow> bool" where
  "isspace c = (let n = code c in
     (9 \<le> n \<and> n \<le> 13) \<or> (28 \<le> n \<and> n \<le> 32) \<or> n = 133 \<or> n = 160)"

text \<open>\<^verbatim>\<open>\d\<close>: the decimal digits.\<close>

definition isdigit :: "char \<Rightarrow> bool" where
  "isdigit c = (let n = code c in 48 \<le> n \<and> n \<le> 57)"

text \<open>\<^verbatim>\<open>str.lower\<close> of one character, and \<^verbatim>\<open>str.upper\<close> where the result stays in the
  range. The second serves only a bracketed range under \<^verbatim>\<open>(?i)\<close>, which no pattern of the
  program has.\<close>

definition lower_char :: "char \<Rightarrow> char" where
  "lower_char c = (let n = code c in
     if (65 \<le> n \<and> n \<le> 90) \<or> (192 \<le> n \<and> n \<le> 222 \<and> n \<noteq> 215) then char_of (n + 32) else c)"

definition upper_char :: "char \<Rightarrow> char" where
  "upper_char c = (let n = code c in
     if (97 \<le> n \<and> n \<le> 122) \<or> (224 \<le> n \<and> n \<le> 254 \<and> n \<noteq> 247) then char_of (n - 32) else c)"

text \<open>\<^verbatim>\<open>str.isupper\<close> of one character: the upper-case letters of the range, which are the
  characters that \<^verbatim>\<open>str.lower\<close> changes.\<close>

definition isupper :: "char \<Rightarrow> bool" where
  "isupper c = (let n = code c in (65 \<le> n \<and> n \<le> 90) \<or> (192 \<le> n \<and> n \<le> 222 \<and> n \<noteq> 215))"

definition lower :: "string \<Rightarrow> string" where
  "lower s = map lower_char s"

text \<open>\<^verbatim>\<open>s.strip()\<close>: whitespace removed at both ends.\<close>

definition strip :: "string \<Rightarrow> string" where
  "strip s = rev (dropWhile isspace (rev (dropWhile isspace s)))"

text \<open>\<^verbatim>\<open>text.split('\n')\<close>: the lines between line feeds; never an empty list.\<close>

fun split_nl :: "string \<Rightarrow> string list" where
  "split_nl [] = [ [] ]"
| "split_nl (c # cs) =
     (if c = CHR 0x0A then [] # split_nl cs
      else (case split_nl cs of [] \<Rightarrow> [ [c] ] | l # ls \<Rightarrow> (c # l) # ls))"

text \<open>\<^verbatim>\<open>sep.join(xs)\<close>.\<close>

fun join :: "string \<Rightarrow> string list \<Rightarrow> string" where
  "join sep [] = []"
| "join sep [x] = x"
| "join sep (x # y # ys) = x @ sep @ join sep (y # ys)"

text \<open>\<^verbatim>\<open>w in s\<close> for strings: \<open>w\<close> occurs in \<open>s\<close> as a contiguous run.\<close>

fun contains :: "string \<Rightarrow> string \<Rightarrow> bool" where
  "contains w [] = (w = [])"
| "contains w (c # cs) = (take (length w) (c # cs) = w \<or> contains w cs)"

text \<open>\<^verbatim>\<open>xs[a:b]\<close> for indices that are not negative.\<close>

definition slice :: "'a list \<Rightarrow> nat \<Rightarrow> nat \<Rightarrow> 'a list" where
  "slice xs a b = take (b - a) (drop a xs)"

text \<open>\<^verbatim>\<open>str(n)\<close> of an integer, as an f-string formats it.\<close>

fun str_nat :: "nat \<Rightarrow> string" where
  "str_nat n = (if n < 10 then [char_of (48 + n)] else str_nat (n div 10) @ [char_of (48 + n mod 10)])"

declare str_nat.simps [simp del]

definition str_int :: "int \<Rightarrow> string" where
  "str_int i = (if i < 0 then CHR ''-'' # str_nat (nat (- i)) else str_nat (nat i))"

section \<open>Regular expressions\<close>

text \<open>
  The fragment of Python's \<^verbatim>\<open>re\<close> syntax that the patterns of the program use. A pattern is
  its syntax tree together with the flag that a leading \<^verbatim>\<open>(?i)\<close> sets.
\<close>

datatype cset =
    Chr char           \<comment> \<open>one literal character\<close>
  | Rng char char      \<comment> \<open>\<^verbatim>\<open>a-b\<close> inside brackets\<close>
  | Digit              \<comment> \<open>\<^verbatim>\<open>\d\<close>\<close>
  | Space              \<comment> \<open>\<^verbatim>\<open>\s\<close>\<close>

datatype regex =
    Eps                \<comment> \<open>the empty pattern\<close>
  | Bol                \<comment> \<open>\<^verbatim>\<open>^\<close>\<close>
  | Eol                \<comment> \<open>\<^verbatim>\<open>$\<close>\<close>
  | Lit string         \<comment> \<open>a run of literal characters\<close>
  | One cset           \<comment> \<open>an escape standing for one character\<close>
  | Set "cset list"    \<comment> \<open>\<^verbatim>\<open>[...]\<close>\<close>
  | NSet "cset list"   \<comment> \<open>\<^verbatim>\<open>[^...]\<close>\<close>
  | Seq regex regex
  | Alt regex regex    \<comment> \<open>\<^verbatim>\<open>r|s\<close>\<close>
  | Star regex         \<comment> \<open>\<^verbatim>\<open>r*\<close>\<close>
  | Plus regex         \<comment> \<open>\<^verbatim>\<open>r+\<close>\<close>
  | Opt regex          \<comment> \<open>\<^verbatim>\<open>r?\<close>\<close>

type_synonym pattern = "bool \<times> regex"

fun cat :: "regex list \<Rightarrow> regex" where
  "cat [] = Eps"
| "cat [r] = r"
| "cat (r # rs) = Seq r (cat rs)"

fun cset_match :: "bool \<Rightarrow> cset \<Rightarrow> char \<Rightarrow> bool" where
  "cset_match ic (Chr a) c = (if ic then lower_char c = lower_char a else c = a)"
| "cset_match ic (Rng a b) c =
     ((code a \<le> code c \<and> code c \<le> code b) \<or>
      (ic \<and> ((code a \<le> code (lower_char c) \<and> code (lower_char c) \<le> code b) \<or>
             (code a \<le> code (upper_char c) \<and> code (upper_char c) \<le> code b))))"
| "cset_match ic Digit c = isdigit c"
| "cset_match ic Space c = isspace c"

text \<open>Matching one character at the head of the rest of the subject.\<close>

definition one_char :: "(char \<Rightarrow> bool) \<Rightarrow> string \<Rightarrow> string list" where
  "one_char p s = (case s of [] \<Rightarrow> [] | c # cs \<Rightarrow> if p c then [cs] else [])"

fun lit_match :: "bool \<Rightarrow> string \<Rightarrow> string \<Rightarrow> string list" where
  "lit_match ic [] s = [s]"
| "lit_match ic (a # as) [] = []"
| "lit_match ic (a # as) (c # cs) = (if cset_match ic (Chr a) c then lit_match ic as cs else [])"

text \<open>Repetition: every rest reachable by applying \<open>f\<close> any number of times, each time
  consuming something. \<open>k\<close> bounds the number of rounds; the length of the rest is enough.\<close>

fun iter :: "(string \<Rightarrow> string list) \<Rightarrow> nat \<Rightarrow> string \<Rightarrow> string list" where
  "iter f 0 s = [s]"
| "iter f (Suc k) s = s # concat (map (iter f k) (filter (\<lambda>t. length t < length s) (f s)))"

text \<open>
  \<open>rests ic n r s\<close>: the backtracking matcher. The subject has \<open>n\<close> characters and \<open>s\<close> is
  what is left of it at the current position; the result lists what is left after each
  way \<open>r\<close> can match there. \<^verbatim>\<open>^\<close> matches at the start of the subject, \<^verbatim>\<open>$\<close> at its end and
  before a line feed that ends it.
\<close>

primrec rests :: "bool \<Rightarrow> nat \<Rightarrow> regex \<Rightarrow> string \<Rightarrow> string list" where
  "rests ic n Eps s = [s]"
| "rests ic n Bol s = (if length s = n then [s] else [])"
| "rests ic n Eol s = (if s = [] \<or> s = [CHR 0x0A] then [s] else [])"
| "rests ic n (Lit w) s = lit_match ic w s"
| "rests ic n (One a) s = one_char (cset_match ic a) s"
| "rests ic n (Set as) s = one_char (\<lambda>c. list_ex (\<lambda>a. cset_match ic a c) as) s"
| "rests ic n (NSet as) s = one_char (\<lambda>c. \<not> list_ex (\<lambda>a. cset_match ic a c) as) s"
| "rests ic n (Seq r1 r2) s = concat (map (rests ic n r2) (rests ic n r1 s))"
| "rests ic n (Alt r1 r2) s = rests ic n r1 s @ rests ic n r2 s"
| "rests ic n (Star r) s = iter (rests ic n r) (length s) s"
| "rests ic n (Plus r) s = concat (map (\<lambda>t. iter (rests ic n r) (length t) t) (rests ic n r s))"
| "rests ic n (Opt r) s = rests ic n r s @ [s]"

text \<open>\<^verbatim>\<open>re.search(pattern, s)\<close> as a truth value: the pattern matches at some position.\<close>

definition re_search :: "pattern \<Rightarrow> string \<Rightarrow> bool" where
  "re_search p s =
     list_ex (\<lambda>i. rests (fst p) (length s) (snd p) (drop i s) \<noteq> []) [0 ..< Suc (length s)]"

section \<open>The document processor\<close>

text \<open>\<^verbatim>\<open>models.DocumentSection\<close>.\<close>

record DocumentSection =
  title :: string
  content :: string
  page_number :: int
  section_type :: string

text \<open>The object: its one field is the dict of patterns, in insertion order.\<close>

record DocumentProcessor =
  section_patterns :: "(string \<times> pattern) list"

text \<open>\<^verbatim>\<open>DocumentProcessor.__init__\<close>.\<close>

definition init :: DocumentProcessor where
  "init = \<lparr> section_patterns = [
     (''title'', (False, cat [Bol, Set [Rng CHR ''A'' CHR ''Z''],
                              Star (NSet [Chr CHR ''.'', Chr CHR ''!'', Chr CHR ''?'']), Eol])),
     (''abstract'', (True, cat [Bol, Alt (Lit ''abstract'') (Lit ''summary'')])),
     (''introduction'', (True, cat [Bol, Alt (Lit ''introduction'')
                              (cat [Lit ''1.'', Star (One Space), Lit ''introduction''])])),
     (''methodology'', (True, cat [Bol, Alt (Lit ''methodology'')
                              (Alt (cat [Lit ''method'', Opt (Lit ''s'')])
                                   (cat [Lit ''2.'', Star (One Space), Lit ''method'']))])),
     (''results'', (True, cat [Bol, Alt (cat [Lit ''result'', Opt (Lit ''s'')])
                              (cat [Lit ''3.'', Star (One Space), Lit ''result'', Opt (Lit ''s'')])])),
     (''conclusion'', (True, cat [Bol, Alt (Lit ''conclusion'')
                              (Alt (cat [Lit ''conclusion'', Opt (Lit ''s'')])
                                   (cat [Lit ''4.'', Star (One Space), Lit ''conclusion'']))])),
     (''references'', (True, cat [Bol, Alt (cat [Lit ''reference'', Opt (Lit ''s'')])
                              (Lit ''bibliography'')])),
     (''section'', (False, cat [Bol, Plus (One Digit), Opt (Lit ''.''), Plus (One Space),
                              Set [Rng CHR ''A'' CHR ''Z'']]))
   ] \<rparr>"

text \<open>\<^verbatim>\<open>_identify_section_type\<close>: the key of the first pattern, in the order of the dict, that
  the line matches.\<close>

fun first_match :: "(string \<times> pattern) list \<Rightarrow> string \<Rightarrow> string option" where
  "first_match [] line = None"
| "first_match ((key, pat) # items) line =
     (if re_search pat line then Some key else first_match items line)"

definition identify_section_type :: "DocumentProcessor \<Rightarrow> string \<Rightarrow> string option" where
  "identify_section_type self line = first_match (section_patterns self) line"

text \<open>\<^verbatim>\<open>_extract_title\<close>: the loop over \<^verbatim>\<open>lines[:10]\<close>, with its early return.\<close>

fun title_loop :: "string list \<Rightarrow> string" where
  "title_loop [] = ''Untitled Document''"
| "title_loop (l # ls) =
     (let line = strip l in
      if length line > 10 \<and> length line < 200 then
        (if \<not> list_ex (\<lambda>word. contains word (lower line))
               [''abstract'', ''introduction'', ''page'', ''doi'']
         then line else title_loop ls)
      else title_loop ls)"

definition extract_title :: "DocumentProcessor \<Rightarrow> string \<Rightarrow> string" where
  "extract_title self text = title_loop (take 10 (split_nl text))"

text \<open>What Python raises becomes a value. Given a string and the table, the only operation
  of the three methods that can raise is the dict lookup \<^verbatim>\<open>self.section_patterns['abstract']\<close>;
  the other exceptions are those of operations on values of the wrong kind.\<close>

datatype error = KeyError string | TypeError | AttributeError | ValidationError

definition getitem :: "(string \<times> pattern) list \<Rightarrow> string \<Rightarrow> error + pattern" where
  "getitem d k = (case map_of d k of None \<Rightarrow> Inl (KeyError k) | Some p \<Rightarrow> Inr p)"

text \<open>The three patterns written inline in \<^verbatim>\<open>_extract_abstract\<close>:
  \<^verbatim>\<open>^\d+\.\<close>, \<^verbatim>\<open>(?i)^(introduction|1\.)\<close> and \<^verbatim>\<open>(?i)^(keywords?|key\s+words?)\<close>.\<close>

definition end_numbered :: pattern where
  "end_numbered = (False, cat [Bol, Plus (One Digit), Lit ''.''])"

definition end_introduction :: pattern where
  "end_introduction = (True, cat [Bol, Alt (Lit ''introduction'') (Lit ''1.'')])"

definition end_keywords :: pattern where
  "end_keywords = (True, cat [Bol, Alt (cat [Lit ''keyword'', Opt (Lit ''s'')])
                     (cat [Lit ''key'', Plus (One Space), Lit ''word'', Opt (Lit ''s'')])])"

definition is_end :: "string \<Rightarrow> bool" where
  "is_end line = (re_search end_numbered line \<or> re_search end_introduction line \<or>
                  re_search end_keywords line)"

text \<open>Python's truth value of an optional integer: neither \<^verbatim>\<open>None\<close> nor 0.\<close>

definition truthy_nat :: "nat option \<Rightarrow> bool" where
  "truthy_nat x = (case x of None \<Rightarrow> False | Some n \<Rightarrow> n \<noteq> 0)"

text \<open>The loop of \<^verbatim>\<open>_extract_abstract\<close> from index \<open>i\<close> on: it returns the pair
  \<^verbatim>\<open>(abstract_start, abstract_end)\<close> at the \<^verbatim>\<open>break\<close> or at the end of the lines.\<close>

fun abstract_loop ::
  "DocumentProcessor \<Rightarrow> nat \<Rightarrow> string list \<Rightarrow> nat option \<Rightarrow> error + (nat option \<times> nat option)" where
  "abstract_loop self i [] abstract_start = Inr (abstract_start, None)"
| "abstract_loop self i (line # rest) abstract_start =
     (case getitem (section_patterns self) ''abstract'' of
        Inl e \<Rightarrow> Inl e
      | Inr pat \<Rightarrow>
          if re_search pat line then abstract_loop self (i + 1) rest (Some (i + 1))
          else if truthy_nat abstract_start \<and> is_end line then Inr (abstract_start, Some i)
          else abstract_loop self (i + 1) rest abstract_start)"

definition extract_abstract :: "DocumentProcessor \<Rightarrow> string \<Rightarrow> error + string option" where
  "extract_abstract self text =
     (let lines = split_nl text in
      case abstract_loop self 0 lines None of
        Inl e \<Rightarrow> Inl e
      | Inr (abstract_start, abstract_end) \<Rightarrow>
          (case abstract_start of
             None \<Rightarrow> Inr None
           | Some start \<Rightarrow>
               if start = 0 then Inr None
               else
                 let abstract_lines =
                       (case abstract_end of
                          None \<Rightarrow> slice lines start (start + 10)
                        | Some stop \<Rightarrow>
                            if stop \<noteq> 0 then slice lines start stop
                            else slice lines start (start + 10));
                     abstract_text = strip (join '' '' abstract_lines)
                 in if length abstract_text > 50 then Inr (Some abstract_text) else Inr None))"

text \<open>\<^verbatim>\<open>_extract_sections\<close>: the three local variables of the loop are the state.\<close>

record seg_state =
  sections :: "DocumentSection list"
  current_section :: "string option"
  current_content :: "string list"

text \<open>\<^verbatim>\<open>section_type and section_type != 'section'\<close>.\<close>

definition named :: "string option \<Rightarrow> bool" where
  "named sty = (case sty of None \<Rightarrow> False | Some ty \<Rightarrow> ty \<noteq> [] \<and> ty \<noteq> ''section'')"

text \<open>The record appended under \<^verbatim>\<open># Save previous section\<close>, when \<^verbatim>\<open>current_section\<close> is
  true (neither \<^verbatim>\<open>None\<close> nor empty).\<close>

definition save_previous :: "int \<Rightarrow> seg_state \<Rightarrow> DocumentSection list" where
  "save_previous pn st =
     (case current_section st of
        None \<Rightarrow> []
      | Some t \<Rightarrow>
          if t = [] then []
          else [\<lparr> title = t, content = strip (join '' '' (current_content st)),
                  page_number = pn, section_type = ''section'' \<rparr>])"

definition page_title :: "int \<Rightarrow> string" where
  "page_title pn = ''Page '' @ str_int pn @ '' Content''"

definition section_step :: "DocumentProcessor \<Rightarrow> int \<Rightarrow> seg_state \<Rightarrow> string \<Rightarrow> seg_state" where
  "section_step self pn st raw =
     (let line = strip raw in
      if line = [] then st
      else
        let sty = identify_section_type self line in
        if named sty then
          \<lparr> sections = sections st @ save_previous pn st @
               [\<lparr> title = line, content = [], page_number = pn,
                  section_type = (case sty of Some ty \<Rightarrow> ty | None \<Rightarrow> []) \<rparr>],
            current_section = Some line,
            current_content = [] \<rparr>
        else
          (case current_section st of
             Some t \<Rightarrow>
               if t \<noteq> [] then st\<lparr> current_content := current_content st @ [line] \<rparr>
               else st\<lparr> current_section := Some (page_title pn),
                        current_content := current_content st @ [line] \<rparr>
           | None \<Rightarrow>
               st\<lparr> current_section := Some (page_title pn),
                   current_content := current_content st @ [line] \<rparr>))"

fun sections_loop :: "DocumentProcessor \<Rightarrow> int \<Rightarrow> string list \<Rightarrow> seg_state \<Rightarrow> seg_state" where
  "sections_loop self pn [] st = st"
| "sections_loop self pn (l # ls) st = sections_loop self pn ls (section_step self pn st l)"

text \<open>\<^verbatim>\<open># Save last section\<close>: only when there is a current section and some content.\<close>

definition save_last :: "int \<Rightarrow> seg_state \<Rightarrow> DocumentSection list" where
  "save_last pn st = (if current_content st \<noteq> [] then save_previous pn st else [])"

definition extract_sections :: "DocumentProcessor \<Rightarrow> string \<Rightarrow> int \<Rightarrow> DocumentSection list" where
  "extract_sections self text pn =
     (let st = sections_loop self pn (split_nl text)
                 \<lparr> sections = [], current_section = None, current_content = [] \<rparr>
      in sections st @ save_last pn st)"

section \<open>The methods over Python values and a store\<close>

text \<open>
  A second model of the three methods, statement by statement. A variable holds a Python
  value of any kind, an operation on a value of the wrong kind raises, and the lists that
  the program builds by \<^verbatim>\<open>append\<close>, the dict of patterns and the processor are objects in a
  store, reached through references. An operation is defined for the kinds of value that
  the three methods can give it; for the other kinds it raises too, so that the model
  raises wherever Python does (and in a few cases that no call reaches where Python would
  accept the value, such as the length of a list).
\<close>

type_synonym addr = nat

datatype pyval =
    PNone
  | PInt int
  | PStr string
  | PRef addr                   \<comment> \<open>a reference to an object of the store\<close>
  | PSection DocumentSection    \<comment> \<open>a validated \<^verbatim>\<open>DocumentSection\<close>\<close>

datatype obj =
    ListObj "pyval list"
  | DictObj "(string \<times> pattern) list"
  | ProcObj addr                \<comment> \<open>a \<^verbatim>\<open>DocumentProcessor\<close>: where its \<^verbatim>\<open>section_patterns\<close> is\<close>

text \<open>The store is the list of the objects created so far; an address is an index.\<close>

type_synonym store = "obj list"

type_synonym 'a py = "store \<Rightarrow> error + 'a \<times> store"

definition bind_err :: "error + 'a \<Rightarrow> ('a \<Rightarrow> error + 'b) \<Rightarrow> error + 'b" where
  "bind_err r f = (case r of Inl e \<Rightarrow> Inl e | Inr x \<Rightarrow> f x)"

definition unit_py :: "'a \<Rightarrow> 'a py" where
  "unit_py x s = Inr (x, s)"

definition bind_py :: "'a py \<Rightarrow> ('a \<Rightarrow> 'b py) \<Rightarrow> 'b py" where
  "bind_py m f s = (case m s of Inl e \<Rightarrow> Inl e | Inr (x, s') \<Rightarrow> f x s')"

definition lift_py :: "error + 'a \<Rightarrow> 'a py" where
  "lift_py r s = (case r of Inl e \<Rightarrow> Inl e | Inr x \<Rightarrow> Inr (x, s))"

subsection \<open>Operations on values\<close>

text \<open>\<^verbatim>\<open>v.split('\n')\<close>, \<^verbatim>\<open>v.strip()\<close>, \<^verbatim>\<open>v.lower()\<close>: methods of a string.\<close>

fun str_split_nl :: "pyval \<Rightarrow> error + pyval list" where
  "str_split_nl (PStr s) = Inr (map PStr (split_nl s))"
| "str_split_nl v = Inl AttributeError"

fun str_strip :: "pyval \<Rightarrow> error + pyval" where
  "str_strip (PStr s) = Inr (PStr (strip s))"
| "str_strip v = Inl AttributeError"

fun str_lower :: "pyval \<Rightarrow> error + pyval" where
  "str_lower (PStr s) = Inr (PStr (lower s))"
| "str_lower v = Inl AttributeError"

text \<open>\<^verbatim>\<open>len(v)\<close> and \<^verbatim>\<open>word in v\<close> for a string \<open>v\<close>.\<close>

fun py_len :: "pyval \<Rightarrow> error + int" where
  "py_len (PStr s) = Inr (int (length s))"
| "py_len v = Inl TypeError"

fun py_contains :: "string \<Rightarrow> pyval \<Rightarrow> error + bool" where
  "py_contains word (PStr s) = Inr (contains word s)"
| "py_contains word v = Inl TypeError"

text \<open>The truth value of a value in a condition.\<close>

fun truthy :: "pyval \<Rightarrow> error + bool" where
  "truthy PNone = Inr False"
| "truthy (PInt n) = Inr (n \<noteq> 0)"
| "truthy (PStr s) = Inr (s \<noteq> [])"
| "truthy (PSection d) = Inr True"
| "truthy (PRef a) = Inl TypeError"

text \<open>\<^verbatim>\<open>re.search(pattern, v)\<close> as a truth value: the subject must be a string.\<close>

fun re_search_py :: "pattern \<Rightarrow> pyval \<Rightarrow> error + bool" where
  "re_search_py p (PStr s) = Inr (re_search p s)"
| "re_search_py p v = Inl TypeError"

text \<open>\<^verbatim>\<open>DocumentSection(title=t, content=c, page_number=n, section_type=ty)\<close>: the three
  string fields are validated. The page number is an integer throughout, as the caller
  passes it.\<close>

fun new_section :: "pyval \<Rightarrow> pyval \<Rightarrow> int \<Rightarrow> pyval \<Rightarrow> error + pyval" where
  "new_section (PStr t) (PStr c) n (PStr ty) =
     Inr (PSection \<lparr> title = t, content = c, page_number = n, section_type = ty \<rparr>)"
| "new_section t c n ty = Inl ValidationError"

text \<open>\<^verbatim>\<open>v + w\<close> for integers.\<close>

fun py_add :: "pyval \<Rightarrow> pyval \<Rightarrow> error + pyval" where
  "py_add (PInt a) (PInt b) = Inr (PInt (a + b))"
| "py_add v w = Inl TypeError"

text \<open>\<^verbatim>\<open>xs[a:b]\<close> for a list: a bound is an integer, counted from the end when negative, or
  \<^verbatim>\<open>None\<close>.\<close>

fun slice_bound :: "nat \<Rightarrow> nat \<Rightarrow> pyval \<Rightarrow> error + nat" where
  "slice_bound n d PNone = Inr d"
| "slice_bound n d (PInt k) = Inr (if k < 0 then nat (max (k + int n) 0) else min (nat k) n)"
| "slice_bound n d v = Inl TypeError"

definition py_slice :: "pyval list \<Rightarrow> pyval \<Rightarrow> pyval \<Rightarrow> error + pyval list" where
  "py_slice xs a b =
     bind_err (slice_bound (length xs) 0 a) (\<lambda>lo.
     bind_err (slice_bound (length xs) (length xs) b) (\<lambda>hi.
     Inr (slice xs lo hi)))"

text \<open>\<^verbatim>\<open>sep.join(xs)\<close>: every element must be a string.\<close>

fun strings_of :: "pyval list \<Rightarrow> error + string list" where
  "strings_of [] = Inr []"
| "strings_of (PStr s # vs) = (case strings_of vs of Inl e \<Rightarrow> Inl e | Inr ss \<Rightarrow> Inr (s # ss))"
| "strings_of (v # vs) = Inl TypeError"

definition join_vals :: "string \<Rightarrow> pyval list \<Rightarrow> error + pyval" where
  "join_vals sep vs = bind_err (strings_of vs) (\<lambda>ss. Inr (PStr (join sep ss)))"

subsection \<open>Operations on the store\<close>

text \<open>\<^verbatim>\<open>[]\<close>: a new list object.\<close>

definition new_list :: "pyval py" where
  "new_list s = Inr (PRef (length s), s @ [ListObj []])"

text \<open>The elements of the list that a value refers to, as \<^verbatim>\<open>join\<close> and the test of
  \<^verbatim>\<open>current_content\<close> in a condition read them. A reference outside the store does not occur
  in Python; every operation of the store raises on one.\<close>

fun get_list :: "pyval \<Rightarrow> pyval list py" where
  "get_list (PRef a) s =
     (if a < length s then (case s ! a of ListObj xs \<Rightarrow> Inr (xs, s) | ob \<Rightarrow> Inl TypeError)
      else Inl TypeError)"
| "get_list v s = Inl TypeError"

text \<open>\<^verbatim>\<open>target.append(v)\<close>.\<close>

fun list_append :: "pyval \<Rightarrow> pyval \<Rightarrow> unit py" where
  "list_append (PRef a) v s =
     (if a < length s
      then (case s ! a of
              ListObj xs \<Rightarrow> Inr ((), s[a := ListObj (xs @ [v])])
            | ob \<Rightarrow> Inl AttributeError)
      else Inl AttributeError)"
| "list_append t v s = Inl AttributeError"

text \<open>\<^verbatim>\<open>self.section_patterns.items()\<close>: the items of the dict of the processor, in order.\<close>

fun get_patterns :: "pyval \<Rightarrow> (string \<times> pattern) list py" where
  "get_patterns (PRef a) s =
     (if a < length s
      then (case s ! a of
              ProcObj d \<Rightarrow>
                (if d < length s
                 then (case s ! d of DictObj items \<Rightarrow> Inr (items, s) | ob \<Rightarrow> Inl AttributeError)
                 else Inl AttributeError)
            | ob \<Rightarrow> Inl AttributeError)
      else Inl AttributeError)"
| "get_patterns v s = Inl AttributeError"

text \<open>\<^verbatim>\<open>self.section_patterns[key]\<close>: the subscript raises \<^verbatim>\<open>KeyError\<close> on a dict without the
  key and \<^verbatim>\<open>TypeError\<close> on an object that is no dict.\<close>

fun get_pattern :: "pyval \<Rightarrow> string \<Rightarrow> pattern py" where
  "get_pattern (PRef a) key s =
     (if a < length s
      then (case s ! a of
              ProcObj d \<Rightarrow>
                (if d < length s
                 then (case s ! d of
                         DictObj items \<Rightarrow>
                           (case getitem items key of Inl e \<Rightarrow> Inl e | Inr p \<Rightarrow> Inr (p, s))
                       | ob \<Rightarrow> Inl TypeError)
                 else Inl AttributeError)
            | ob \<Rightarrow> Inl AttributeError)
      else Inl AttributeError)"
| "get_pattern v key s = Inl AttributeError"

text \<open>\<^verbatim>\<open>DocumentProcessor()\<close>: the dict of \<^verbatim>\<open>__init__\<close> and the processor are new objects.\<close>

definition new_processor :: "pyval py" where
  "new_processor s =
     Inr (PRef (Suc (length s)), s @ [DictObj (section_patterns init), ProcObj (length s)])"

subsection \<open>The methods\<close>

text \<open>\<^verbatim>\<open>_identify_section_type\<close>.\<close>

fun first_match_py :: "(string \<times> pattern) list \<Rightarrow> pyval \<Rightarrow> error + pyval" where
  "first_match_py [] line = Inr PNone"
| "first_match_py ((key, pat) # items) line =
     (case re_search_py pat line of
        Inl e \<Rightarrow> Inl e
      | Inr m \<Rightarrow> if m then Inr (PStr key) else first_match_py items line)"

definition identify_section_type_py :: "pyval \<Rightarrow> pyval \<Rightarrow> pyval py" where
  "identify_section_type_py self line =
     bind_py (get_patterns self) (\<lambda>items. lift_py (first_match_py items line))"

text \<open>\<^verbatim>\<open>_extract_title\<close>. \<^verbatim>\<open>any(word in line.lower() for word in ...)\<close> stops at the first
  word found.\<close>

fun any_word_in_lower :: "string list \<Rightarrow> pyval \<Rightarrow> error + bool" where
  "any_word_in_lower [] line = Inr False"
| "any_word_in_lower (word # ws) line =
     (case str_lower line of
        Inl e \<Rightarrow> Inl e
      | Inr low \<Rightarrow>
          (case py_contains word low of
             Inl e \<Rightarrow> Inl e
           | Inr found \<Rightarrow> if found then Inr True else any_word_in_lower ws line))"

fun title_loop_py :: "pyval list \<Rightarrow> error + pyval" where
  "title_loop_py [] = Inr (PStr ''Untitled Document'')"
| "title_loop_py (l # ls) =
     (case str_strip l of
        Inl e \<Rightarrow> Inl e
      | Inr line \<Rightarrow>
          (case py_len line of
             Inl e \<Rightarrow> Inl e
           | Inr n \<Rightarrow>
               if n > 10 then
                 (case py_len line of
                    Inl e \<Rightarrow> Inl e
                  | Inr m \<Rightarrow>
                      if m < 200 then
                        (case any_word_in_lower
                                [''abstract'', ''introduction'', ''page'', ''doi''] line of
                           Inl e \<Rightarrow> Inl e
                         | Inr found \<Rightarrow> if \<not> found then Inr line else title_loop_py ls)
                      else title_loop_py ls)
               else title_loop_py ls))"

definition extract_title_py :: "pyval \<Rightarrow> pyval \<Rightarrow> error + pyval" where
  "extract_title_py self text =
     bind_err (str_split_nl text) (\<lambda>lines. title_loop_py (take 10 lines))"

text \<open>\<^verbatim>\<open>_extract_abstract\<close>. The three searches of the \<^verbatim>\<open>elif\<close> are joined by \<^verbatim>\<open>or\<close>: a later
  one runs only when the earlier ones found nothing.\<close>

definition is_end_py :: "pyval \<Rightarrow> error + bool" where
  "is_end_py line =
     bind_err (re_search_py end_numbered line) (\<lambda>a.
     if a then Inr True
     else bind_err (re_search_py end_introduction line) (\<lambda>b.
          if b then Inr True else re_search_py end_keywords line))"

fun abstract_loop_py ::
  "pyval \<Rightarrow> nat \<Rightarrow> pyval list \<Rightarrow> pyval \<Rightarrow> store \<Rightarrow> error + pyval \<times> pyval" where
  "abstract_loop_py self i [] abstract_start s = Inr (abstract_start, PNone)"
| "abstract_loop_py self i (line # rest) abstract_start s =
     (case get_pattern self ''abstract'' s of
        Inl e \<Rightarrow> Inl e
      | Inr (pat, s') \<Rightarrow>
          (case re_search_py pat line of
             Inl e \<Rightarrow> Inl e
           | Inr m \<Rightarrow>
               if m then abstract_loop_py self (i + 1) rest (PInt (int i + 1)) s
               else
                 (case truthy abstract_start of
                    Inl e \<Rightarrow> Inl e
                  | Inr started \<Rightarrow>
                      if started then
                        (case is_end_py line of
                           Inl e \<Rightarrow> Inl e
                         | Inr ended \<Rightarrow>
                             if ended then Inr (abstract_start, PInt (int i))
                             else abstract_loop_py self (i + 1) rest abstract_start s)
                      else abstract_loop_py self (i + 1) rest abstract_start s)))"

definition extract_abstract_py :: "pyval \<Rightarrow> pyval \<Rightarrow> pyval py" where
  "extract_abstract_py self text s =
     bind_err (str_split_nl text) (\<lambda>lines.
     bind_err (abstract_loop_py self 0 lines PNone s) (\<lambda>(abstract_start, abstract_end).
     bind_err (truthy abstract_start) (\<lambda>started.
     if started then
       bind_err (bind_err (truthy abstract_end) (\<lambda>ended.
                   if ended then py_slice lines abstract_start abstract_end
                   else bind_err (py_add abstract_start (PInt 10)) (\<lambda>stop.
                        py_slice lines abstract_start stop))) (\<lambda>abstract_lines.
       bind_err (join_vals '' '' abstract_lines) (\<lambda>joined.
       bind_err (str_strip joined) (\<lambda>abstract_text.
       bind_err (py_len abstract_text) (\<lambda>n.
       if n > 50 then Inr (abstract_text, s) else Inr (PNone, s)))))
     else Inr (PNone, s))))"

text \<open>\<^verbatim>\<open>_extract_sections\<close>. Its three locals; \<^verbatim>\<open>sections\<close> and \<^verbatim>\<open>current_content\<close> refer to
  list objects.\<close>

record locals =
  v_sections :: pyval
  v_current_section :: pyval
  v_current_content :: pyval

text \<open>\<^verbatim>\<open>sections.append(DocumentSection(title=current_section,
  content=' '.join(current_content).strip(), page_number=page_number,
  section_type='section'))\<close>.\<close>

definition append_closing :: "int \<Rightarrow> locals \<Rightarrow> unit py" where
  "append_closing pn L =
     bind_py (get_list (v_current_content L)) (\<lambda>items.
     bind_py (lift_py (join_vals '' '' items)) (\<lambda>joined.
     bind_py (lift_py (str_strip joined)) (\<lambda>body.
     bind_py (lift_py (new_section (v_current_section L) body pn (PStr ''section''))) (\<lambda>sec.
     list_append (v_sections L) sec))))"

definition section_step_py :: "pyval \<Rightarrow> int \<Rightarrow> locals \<Rightarrow> pyval \<Rightarrow> locals py" where
  "section_step_py self pn L raw =
     bind_py (lift_py (str_strip raw)) (\<lambda>line.
     bind_py (lift_py (truthy line)) (\<lambda>nonblank.
     if \<not> nonblank then unit_py L
     else
       bind_py (identify_section_type_py self line) (\<lambda>sty.
       bind_py (lift_py (truthy sty)) (\<lambda>typed.
       if typed \<and> sty \<noteq> PStr ''section'' then
         bind_py (lift_py (truthy (v_current_section L))) (\<lambda>open_section.
         bind_py (if open_section then append_closing pn L else unit_py ()) (\<lambda>u.
         bind_py new_list (\<lambda>fresh.
         bind_py (lift_py (new_section line (PStr []) pn sty)) (\<lambda>sec.
         bind_py (list_append (v_sections L) sec) (\<lambda>u.
         unit_py (L\<lparr> v_current_section := line, v_current_content := fresh \<rparr>))))))
       else
         bind_py (lift_py (truthy (v_current_section L))) (\<lambda>open_section.
         if open_section then
           bind_py (list_append (v_current_content L) line) (\<lambda>u. unit_py L)
         else
           bind_py (list_append (v_current_content L) line) (\<lambda>u.
           unit_py (L\<lparr> v_current_section := PStr (''Page '' @ str_int pn @ '' Content'') \<rparr>)))))))"

fun sections_loop_py :: "pyval \<Rightarrow> int \<Rightarrow> pyval list \<Rightarrow> locals \<Rightarrow> locals py" where
  "sections_loop_py self pn [] L s = Inr (L, s)"
| "sections_loop_py self pn (raw # rest) L s =
     (case section_step_py self pn L raw s of
        Inl e \<Rightarrow> Inl e
      | Inr (L', s') \<Rightarrow> sections_loop_py self pn rest L' s')"

definition extract_sections_py :: "pyval \<Rightarrow> pyval \<Rightarrow> int \<Rightarrow> pyval py" where
  "extract_sections_py self text pn =
     bind_py new_list (\<lambda>secs.
     bind_py (lift_py (str_split_nl text)) (\<lambda>lines.
     bind_py new_list (\<lambda>buffer.
     bind_py (sections_loop_py self pn lines
                \<lparr> v_sections = secs, v_current_section = PNone, v_current_content = buffer \<rparr>)
       (\<lambda>L.
     bind_py (lift_py (truthy (v_current_section L))) (\<lambda>open_section.
     bind_py (if open_section then get_list (v_current_content L) else unit_py []) (\<lambda>items.
     bind_py (if open_section \<and> items \<noteq> [] then append_closing pn L else unit_py ()) (\<lambda>u.
     unit_py (v_sections L))))))))"


subsection \<open>The two models side by side\<close>

text \<open>An optional string and an optional index of the first model as Python values.\<close>

definition opt_str :: "string option \<Rightarrow> pyval" where
  "opt_str x = (case x of None \<Rightarrow> PNone | Some t \<Rightarrow> PStr t)"

definition opt_int :: "nat option \<Rightarrow> pyval" where
  "opt_int x = (case x of None \<Rightarrow> PNone | Some n \<Rightarrow> PInt (int n))"

text \<open>
  \<open>sections_rel s0 L st s\<close>: during a call of \<^verbatim>\<open>_extract_sections\<close> that started in the store
  \<open>s0\<close>, the locals \<open>L\<close> and the store \<open>s\<close> agree with the state \<open>st\<close> of the first model. The
  objects of \<open>s0\<close> are in \<open>s\<close> as they were, and the two lists of the call are two different
  objects created since.
\<close>

definition sections_rel :: "store \<Rightarrow> locals \<Rightarrow> seg_state \<Rightarrow> store \<Rightarrow> bool" where
  "sections_rel s0 L st s =
     (take (length s0) s = s0 \<and>
      (\<exists>a c. v_sections L = PRef a \<and> v_current_content L = PRef c \<and>
         length s0 \<le> a \<and> length s0 \<le> c \<and> a < length s \<and> c < length s \<and> a \<noteq> c \<and>
         s ! a = ListObj (map PSection (sections st)) \<and>
         s ! c = ListObj (map PStr (current_content st)) \<and>
         v_current_section L = opt_str (current_section st)))"

text \<open>Calls of \<^verbatim>\<open>_extract_sections\<close> on one processor, one after the other, each on the store
  that the call before has left: the list of the references they return.\<close>

fun calls_py :: "pyval \<Rightarrow> (string \<times> int) list \<Rightarrow> pyval list py" where
  "calls_py self [] s = Inr ([], s)"
| "calls_py self ((text, pn) # cs) s =
     (case extract_sections_py self (PStr text) pn s of
        Inl e \<Rightarrow> Inl e
      | Inr (r, s') \<Rightarrow>
          (case calls_py self cs s' of
             Inl e \<Rightarrow> Inl e
           | Inr (rs, s'') \<Rightarrow> Inr (r # rs, s'')))"

section \<open>Properties stated about the results\<close>

text \<open>The index of the first, and of the last, element of a list that satisfies \<open>P\<close>.\<close>

fun first_index :: "('a \<Rightarrow> bool) \<Rightarrow> 'a list \<Rightarrow> nat option" where
  "first_index P [] = None"
| "first_index P (x # xs) = (if P x then Some 0 else map_option Suc (first_index P xs))"

fun last_index :: "('a \<Rightarrow> bool) \<Rightarrow> 'a list \<Rightarrow> nat option" where
  "last_index P [] = None"
| "last_index P (x # xs) =
     (case last_index P xs of
        Some k \<Rightarrow> Some (Suc k)
      | None \<Rightarrow> if P x then Some 0 else None)"

text \<open>The abstract heading rule: the pattern stored under \<^verbatim>\<open>abstract\<close> by \<^verbatim>\<open>__init__\<close>.\<close>

definition is_abstract :: "string \<Rightarrow> bool" where
  "is_abstract line =
     (case getitem (section_patterns init) ''abstract'' of
        Inl e \<Rightarrow> False
      | Inr pat \<Rightarrow> re_search pat line)"

text \<open>The text between a start and an end (ten lines from the start when there is no end):
  joined with single spaces, trimmed, and kept when longer than 50 characters.\<close>

definition abstract_between :: "string list \<Rightarrow> nat \<Rightarrow> nat option \<Rightarrow> string option" where
  "abstract_between lines start stop =
     (let t = strip (join '' '' (case stop of
                                  None \<Rightarrow> slice lines start (start + 10)
                                | Some e \<Rightarrow> slice lines start e))
      in if length t > 50 then Some t else None)"

text \<open>The abstract as the specification words it: the start is one past the first line that
  matches the abstract heading rule, the end is the first line from there on that matches one
  of the three end patterns.\<close>

definition abstract_claimed :: "string \<Rightarrow> string option" where
  "abstract_claimed text =
     (let lines = split_nl text in
      case first_index is_abstract lines of
        None \<Rightarrow> None
      | Some h \<Rightarrow>
          abstract_between lines (h + 1)
            (map_option (\<lambda>j. h + 1 + j) (first_index is_end (drop (h + 1) lines))))"

text \<open>The same with the start one past the last line that matches the abstract heading rule
  among the lines before the end (among all the lines when there is no end).\<close>

definition abstract_amended :: "string \<Rightarrow> string option" where
  "abstract_amended text =
     (let lines = split_nl text in
      case first_index is_abstract lines of
        None \<Rightarrow> None
      | Some h \<Rightarrow>
          let stop = map_option (\<lambda>j. h + 1 + j) (first_index is_end (drop (h + 1) lines));
              scope = (case stop of None \<Rightarrow> lines | Some e \<Rightarrow> take e lines)
          in case last_index is_abstract scope of
               None \<Rightarrow> None
             | Some k \<Rightarrow> abstract_between lines (k + 1) stop)"

text \<open>A string is trimmed when it has no whitespace at its start or at its end.\<close>

definition trimmed :: "string \<Rightarrow> bool" where
  "trimmed s = (s = [] \<or> (\<not> isspace (hd s) \<and> \<not> isspace (last s)))"

section \<open>Basic facts about the string operations and the matcher\<close>

lemma re_search_Bol:
  "re_search (ic, Seq Bol r) s = (rests ic (length s) r s \<noteq> [])"
proof -
  have "(\<exists>i\<in>set [0 ..< Suc (length s)]. rests ic (length s) (Seq Bol r) (drop i s) \<noteq> [])
        = (rests ic (length s) r s \<noteq> [])" (is "?L = ?R")
  proof
    assume ?L
    then obtain i where i0: "i \<in> set [0 ..< Suc (length s)]"
      and i2: "rests ic (length s) (Seq Bol r) (drop i s) \<noteq> []"
      by blast
    from i0 have "i < Suc (length s)" by (simp only: set_upt atLeastLessThan_iff)
    note i = this i2
    then have "length (drop i s) = length s" by (auto split: if_splits)
    with i(1) have "i = 0" by simp
    with i(2) show ?R by simp
  next
    assume ?R
    then have "rests ic (length s) (Seq Bol r) (drop 0 s) \<noteq> []" by simp
    then show ?L by (intro bexI [of _ 0]) simp_all
  qed
  then show ?thesis
    by (simp only: re_search_def list_ex_iff fst_conv snd_conv)
qed

lemma strip_Nil_iff: "strip s = [] \<longleftrightarrow> (\<forall>c\<in>set s. isspace c)"
proof -
  have "(\<forall>x\<in>set (dropWhile isspace s). isspace x) \<longleftrightarrow> (\<forall>x\<in>set s. isspace x)"
  proof (cases "dropWhile isspace s")
    case Nil
    then have "\<forall>x\<in>set s. isspace x" by (simp add: dropWhile_eq_Nil_conv)
    then show ?thesis by (auto dest: set_dropWhileD)
  next
    case (Cons a as)
    then have "\<not> isspace (hd (dropWhile isspace s))"
      using hd_dropWhile [of isspace s] by simp
    moreover have "hd (dropWhile isspace s) \<in> set (dropWhile isspace s)"
      using Cons by simp
    moreover have "hd (dropWhile isspace s) \<in> set s"
      using calculation(2) set_dropWhileD by fastforce
    ultimately show ?thesis by blast
  qed
  then show ?thesis
    by (simp add: strip_def dropWhile_eq_Nil_conv)
qed

lemma section_step_blank: "strip l = [] \<Longrightarrow> section_step self pn st l = st"
  by (simp add: section_step_def)

lemma sections_loop_blank:
  "\<forall>l\<in>set ls. strip l = [] \<Longrightarrow> sections_loop self pn ls st = st"
  by (induction ls arbitrary: st) (simp_all add: section_step_blank)

lemma first_match_Some_iff:
  "first_match ps line = Some k \<longleftrightarrow>
     (\<exists>i<length ps. fst (ps ! i) = k \<and> re_search (snd (ps ! i)) line \<and>
        (\<forall>j<i. \<not> re_search (snd (ps ! j)) line))"
proof (induction ps)
  case Nil
  then show ?case by simp
next
  case (Cons a ps)
  obtain k' p' where a: "a = (k', p')" by (cases a)
  show ?case
  proof (cases "re_search p' line")
    case True
    have "(\<exists>i<length (a # ps). fst ((a # ps) ! i) = k \<and> re_search (snd ((a # ps) ! i)) line \<and>
        (\<forall>j<i. \<not> re_search (snd ((a # ps) ! j)) line)) \<longleftrightarrow> k' = k" (is "?R \<longleftrightarrow> _")
    proof
      assume ?R
      then obtain i where i: "i < length (a # ps)" "fst ((a # ps) ! i) = k"
        "\<forall>j<i. \<not> re_search (snd ((a # ps) ! j)) line" by blast
      have "i = 0"
      proof (rule ccontr)
        assume "i \<noteq> 0"
        then have "0 < i" by simp
        with i(3) have "\<not> re_search (snd ((a # ps) ! 0)) line" by blast
        with True a show False by simp
      qed
      with i(2) a show "k' = k" by simp
    next
      assume "k' = k"
      with True a show ?R by (intro exI [of _ 0]) simp
    qed
    with True a show ?thesis by simp
  next
    case False
    have "(\<exists>i<length (a # ps). fst ((a # ps) ! i) = k \<and> re_search (snd ((a # ps) ! i)) line \<and>
        (\<forall>j<i. \<not> re_search (snd ((a # ps) ! j)) line)) \<longleftrightarrow>
        (\<exists>i<length ps. fst (ps ! i) = k \<and> re_search (snd (ps ! i)) line \<and>
          (\<forall>j<i. \<not> re_search (snd (ps ! j)) line))" (is "?L \<longleftrightarrow> ?R")
    proof
      assume ?L
      then obtain i where i: "i < length (a # ps)" "fst ((a # ps) ! i) = k"
        "re_search (snd ((a # ps) ! i)) line"
        "\<forall>j<i. \<not> re_search (snd ((a # ps) ! j)) line" by blast
      from i(3) False a have "i \<noteq> 0" by (cases i) auto
      then obtain m where m: "i = Suc m" by (cases i) auto
      have "\<forall>j<m. \<not> re_search (snd (ps ! j)) line"
      proof (intro allI impI)
        fix j assume "j < m"
        then have "Suc j < i" using m by simp
        with i(4) have "\<not> re_search (snd ((a # ps) ! Suc j)) line" by blast
        then show "\<not> re_search (snd (ps ! j)) line" by simp
      qed
      with i m show ?R by (intro exI [of _ m]) simp
    next
      assume ?R
      then obtain m where m: "m < length ps" "fst (ps ! m) = k" "re_search (snd (ps ! m)) line"
        "\<forall>j<m. \<not> re_search (snd (ps ! j)) line" by blast
      have "\<forall>j<Suc m. \<not> re_search (snd ((a # ps) ! j)) line"
      proof (intro allI impI)
        fix j assume "j < Suc m"
        then show "\<not> re_search (snd ((a # ps) ! j)) line"
          using m(4) False a by (cases j) auto
      qed
      with m show ?L by (intro exI [of _ "Suc m"]) simp
    qed
    with False a Cons.IH show ?thesis by simp
  qed
qed

lemma first_match_None_iff:
  "first_match ps line = None \<longleftrightarrow> (\<forall>i<length ps. \<not> re_search (snd (ps ! i)) line)"
proof (induction ps)
  case Nil
  then show ?case by simp
next
  case (Cons a ps)
  obtain k' p' where a: "a = (k', p')" by (cases a)
  show ?case using Cons.IH a
    by (auto simp: less_Suc_eq_0_disj)
qed

lemma getitem_abstract:
  "getitem (section_patterns init) ''abstract'' = Inr (True, cat [Bol, Alt (Lit ''abstract'') (Lit ''summary'')])"
  by (simp add: getitem_def init_def)

lemma abstract_loop_total: "\<exists>r. abstract_loop init i ls st = Inr r"
  by (induction ls arbitrary: i st) (simp_all add: getitem_abstract del: cat.simps)

lemma one_char_simps [simp]:
  "one_char p [] = []"
  "one_char p (c # cs) = (if p c then [cs] else [])"
  by (simp_all add: one_char_def)

lemma rests_NSet_fun:
  "rests ic n (NSet as) = one_char (\<lambda>c. \<not> list_ex (\<lambda>a. cset_match ic a c) as)"
  by (rule ext) simp

lemma iter_one_char_all:
  "\<forall>c\<in>set s. p c \<Longrightarrow> length s \<le> k \<Longrightarrow> [] \<in> set (iter (one_char p) k s)"
proof (induction s arbitrary: k)
  case Nil
  then show ?case by (cases k) simp_all
next
  case (Cons c cs)
  then obtain k' where k: "k = Suc k'" by (cases k) auto
  with Cons.prems have "[] \<in> set (iter (one_char p) k' cs)"
    by (intro Cons.IH) simp_all
  with Cons.prems k show ?case by simp
qed

lemma title_pattern_matches:
  assumes "line \<noteq> []" "code CHR ''A'' \<le> code (hd line)" "code (hd line) \<le> code CHR ''Z''"
    and "\<forall>c\<in>set line. c \<noteq> CHR ''.'' \<and> c \<noteq> CHR ''!'' \<and> c \<noteq> CHR ''?''"
  shows "re_search (False, cat [Bol, Set [Rng CHR ''A'' CHR ''Z''],
           Star (NSet [Chr CHR ''.'', Chr CHR ''!'', Chr CHR ''?'']), Eol]) line"
proof -
  obtain c cs where line: "line = c # cs" using assms(1) by (cases line) auto
  let ?p = "\<lambda>c. \<not> list_ex (\<lambda>a. cset_match False a c) [Chr CHR ''.'', Chr CHR ''!'', Chr CHR ''?'']"
  have "\<forall>c\<in>set cs. ?p c" using assms(4) line by simp
  then have "[] \<in> set (iter (one_char ?p) (length cs) cs)"
    by (rule iter_one_char_all) simp
  then have "[] \<in> set (rests False (length line) (Star (NSet [Chr CHR ''.'', Chr CHR ''!'', Chr CHR ''?''])) cs)"
    by (simp only: rests.simps rests_NSet_fun)
  then have "\<exists>t\<in>set (rests False (length line) (Star (NSet [Chr CHR ''.'', Chr CHR ''!'', Chr CHR ''?''])) cs).
      rests False (length line) Eol t \<noteq> []"
    by (intro bexI [of _ "[]"]) simp_all
  then have "rests False (length line) (Seq (Star (NSet [Chr CHR ''.'', Chr CHR ''!'', Chr CHR ''?''])) Eol) cs \<noteq> []"
    by (simp del: rests.simps(3,10) add: rests.simps(8))
  moreover have "rests False (length line) (Set [Rng CHR ''A'' CHR ''Z'']) line = [cs]"
    using assms(2,3) line by simp
  ultimately show ?thesis
    by (simp add: re_search_Bol del: rests.simps(3,6,7,10))
qed

lemma contains_iff: "contains w s \<longleftrightarrow> (\<exists>a b. s = a @ w @ b)"
proof (induction s)
  case Nil
  then show ?case by auto
next
  case (Cons c cs)
  have "(\<exists>a b. c # cs = a @ w @ b) \<longleftrightarrow> (\<exists>b. c # cs = w @ b) \<or> (\<exists>a b. cs = a @ w @ b)"
    (is "?L \<longleftrightarrow> ?R1 \<or> ?R2")
  proof
    assume ?L
    then obtain a b where ab: "c # cs = a @ w @ b" by blast
    show "?R1 \<or> ?R2"
    proof (cases a)
      case Nil
      with ab show ?thesis by auto
    next
      case (Cons x xs)
      with ab have "cs = xs @ w @ b" by simp
      then show ?thesis by blast
    qed
  next
    assume "?R1 \<or> ?R2"
    then show ?L
    proof
      assume ?R1
      then obtain b where "c # cs = [] @ w @ b" by auto
      then show ?L by blast
    next
      assume ?R2
      then obtain a b where "cs = a @ w @ b" by blast
      then have "c # cs = (c # a) @ w @ b" by simp
      then show ?L by blast
    qed
  qed
  moreover have "take (length w) (c # cs) = w \<longleftrightarrow> (\<exists>b. c # cs = w @ b)"
    by (metis append_eq_conv_conj append_take_drop_id)
  ultimately show ?case using Cons.IH by simp
qed

lemma last_dropWhile: "dropWhile P xs \<noteq> [] \<Longrightarrow> last (dropWhile P xs) = last xs"
  by (induction xs) (auto split: if_splits)

lemma trimmed_strip: "trimmed (strip s)"
proof (cases "strip s = []")
  case True
  then show ?thesis by (simp add: trimmed_def)
next
  case False
  let ?u = "dropWhile isspace s"
  let ?v = "dropWhile isspace (rev ?u)"
  have v: "?v \<noteq> []" using False by (simp add: strip_def)
  then have u: "?u \<noteq> []" by (metis dropWhile.simps(1) rev.simps(1))
  have "hd (strip s) = last ?v" using v by (simp add: strip_def hd_rev)
  also have "\<dots> = last (rev ?u)" using v by (rule last_dropWhile)
  also have "\<dots> = hd ?u" using u by (simp add: last_rev)
  finally have "\<not> isspace (hd (strip s))" using u hd_dropWhile [of isspace s] by simp
  moreover have "last (strip s) = hd ?v" using v by (simp add: strip_def last_rev)
  then have "\<not> isspace (last (strip s))" using v hd_dropWhile [of isspace "rev ?u"] by simp
  ultimately show ?thesis by (simp add: trimmed_def)
qed

lemma strip_trimmed: "trimmed s \<Longrightarrow> strip s = s"
proof (cases "s = []")
  case True
  then show ?thesis by (simp add: strip_def)
next
  case False
  assume "trimmed s"
  with False have h: "\<not> isspace (hd s)" and l: "\<not> isspace (last s)"
    by (simp_all add: trimmed_def)
  from False h have 1: "dropWhile isspace s = s" by (cases s) auto
  from False l have "\<not> isspace (hd (rev s))" by (simp add: hd_rev)
  with False have 2: "dropWhile isspace (rev s) = rev s" by (cases "rev s") auto
  show ?thesis by (simp add: strip_def 1 2)
qed

lemma strip_idem: "strip (strip s) = strip s"
  by (rule strip_trimmed) (rule trimmed_strip)

lemma title_loop_find:
  "title_loop ls =
     (case find (\<lambda>l. 10 < length l \<and> length l < 200 \<and>
                  \<not> (\<exists>w\<in>set [''abstract'', ''introduction'', ''page'', ''doi''].
                       \<exists>a b. lower l = a @ w @ b)) (map strip ls) of
        None \<Rightarrow> ''Untitled Document'' | Some l \<Rightarrow> l)"
  by (induction ls) (simp_all add: Let_def contains_iff del: contains.simps)

subsection \<open>The loop of the segmentation\<close>

lemma sections_loop_append:
  "sections_loop self pn (xs @ ys) st = sections_loop self pn ys (sections_loop self pn xs st)"
  by (induction xs arbitrary: st) simp_all

lemma sections_loop_filter:
  "sections_loop self pn ls st = sections_loop self pn (filter (\<lambda>l. strip l \<noteq> []) ls) st"
  by (induction ls arbitrary: st) (simp_all add: section_step_blank)

lemma section_step_body:
  assumes "strip l \<noteq> []" "\<not> named (identify_section_type self (strip l))"
  shows "section_step self pn st l =
     st\<lparr> current_section :=
            (case current_section st of
               None \<Rightarrow> Some (page_title pn)
             | Some t \<Rightarrow> if t \<noteq> [] then Some t else Some (page_title pn)),
          current_content := current_content st @ [strip l] \<rparr>"
  using assms by (simp add: section_step_def Let_def split: option.splits)

lemma section_step_heading:
  assumes "strip l \<noteq> []" "identify_section_type self (strip l) = Some ty" "named (Some ty)"
  shows "section_step self pn st l =
     \<lparr> sections = sections st @ save_previous pn st @
         [\<lparr> title = strip l, content = [], page_number = pn, section_type = ty \<rparr>],
       current_section = Some (strip l), current_content = [] \<rparr>"
  using assms by (simp add: section_step_def Let_def)

lemma sections_loop_body:
  assumes "\<forall>b\<in>set body. strip b = [] \<or> \<not> named (identify_section_type self (strip b))"
    and "current_section st = Some t" "t \<noteq> []"
  shows "sections_loop self pn body st =
     st\<lparr> current_content := current_content st @ filter (\<lambda>b. b \<noteq> []) (map strip body) \<rparr>"
  using assms
proof (induction body arbitrary: st)
  case Nil
  then show ?case by simp
next
  case (Cons b body)
  show ?case
  proof (cases "strip b = []")
    case True
    with Cons show ?thesis by (simp add: section_step_blank)
  next
    case False
    with Cons.prems have nn: "\<not> named (identify_section_type self (strip b))" by simp
    let ?st = "section_step self pn st b"
    have st': "?st = st\<lparr> current_content := current_content st @ [strip b] \<rparr>"
      using section_step_body [OF False nn, of pn st] Cons.prems(2,3) by simp
    have "sections_loop self pn body ?st =
       ?st\<lparr> current_content := current_content ?st @ filter (\<lambda>b. b \<noteq> []) (map strip body) \<rparr>"
      using Cons.prems by (intro Cons.IH) (simp_all add: st')
    with False show ?thesis by (simp add: st')
  qed
qed

lemma sections_loop_two_headings:
  assumes h: "strip h \<noteq> []" "identify_section_type self (strip h) = Some ty" "named (Some ty)"
    and h2: "strip h2 \<noteq> []" "identify_section_type self (strip h2) = Some ty2" "named (Some ty2)"
    and body: "\<forall>b\<in>set body. strip b = [] \<or> \<not> named (identify_section_type self (strip b))"
  shows "sections_loop self pn (h # body @ [h2]) st =
     \<lparr> sections = sections st @ save_previous pn st @
         [\<lparr> title = strip h, content = [], page_number = pn, section_type = ty \<rparr>,
          \<lparr> title = strip h, content = strip (join '' '' (filter (\<lambda>b. b \<noteq> []) (map strip body))),
            page_number = pn, section_type = ''section'' \<rparr>,
          \<lparr> title = strip h2, content = [], page_number = pn, section_type = ty2 \<rparr>],
       current_section = Some (strip h2), current_content = [] \<rparr>"
proof -
  define s1 where "s1 = section_step self pn st h"
  define s2 where "s2 = sections_loop self pn body s1"
  have s1: "s1 = \<lparr> sections = sections st @ save_previous pn st @
         [\<lparr> title = strip h, content = [], page_number = pn, section_type = ty \<rparr>],
       current_section = Some (strip h), current_content = [] \<rparr>"
    unfolding s1_def using h by (rule section_step_heading)
  have "s2 = s1\<lparr> current_content := current_content s1 @ filter (\<lambda>b. b \<noteq> []) (map strip body) \<rparr>"
    unfolding s2_def using body by (rule sections_loop_body [where t = "strip h"]) (simp_all add: s1 h(1))
  then have s2: "s2 = \<lparr> sections = sections st @ save_previous pn st @
         [\<lparr> title = strip h, content = [], page_number = pn, section_type = ty \<rparr>],
       current_section = Some (strip h),
       current_content = filter (\<lambda>b. b \<noteq> []) (map strip body) \<rparr>"
    by (simp add: s1)
  have a: "sections_loop self pn (h # body @ [h2]) st = section_step self pn s2 h2"
    by (simp add: sections_loop_append s1_def s2_def)
  have b: "section_step self pn s2 h2 = \<lparr> sections = sections s2 @ save_previous pn s2 @
         [\<lparr> title = strip h2, content = [], page_number = pn, section_type = ty2 \<rparr>],
       current_section = Some (strip h2), current_content = [] \<rparr>"
    using h2 by (rule section_step_heading)
  have c: "save_previous pn s2 =
      [\<lparr> title = strip h, content = strip (join '' '' (filter (\<lambda>b. b \<noteq> []) (map strip body))),
            page_number = pn, section_type = ''section'' \<rparr>]"
    using h(1) by (simp add: s2 save_previous_def)
  have d: "sections s2 = sections st @ save_previous pn st @
         [\<lparr> title = strip h, content = [], page_number = pn, section_type = ty \<rparr>]"
    by (simp add: s2)
  show ?thesis by (simp only: a b c d append_assoc append_Cons append_Nil)
qed

lemma section_step_extends:
  "\<exists>B. sections (section_step self pn st l) = sections st @ B"
proof (cases "strip l = []")
  case True
  then show ?thesis by (simp add: section_step_blank)
next
  case False
  show ?thesis
  proof (cases "named (identify_section_type self (strip l))")
    case True
    then obtain ty where ty: "identify_section_type self (strip l) = Some ty"
      by (cases "identify_section_type self (strip l)") (simp_all add: named_def)
    show ?thesis
      using section_step_heading [OF False ty, of pn st] True ty by simp
  next
    case nn: False
    show ?thesis
      using section_step_body [OF False nn, of pn st] by simp
  qed
qed

lemma sections_loop_extends:
  "\<exists>B. sections (sections_loop self pn ls st) = sections st @ B"
proof (induction ls arbitrary: st)
  case Nil
  then show ?case by simp
next
  case (Cons l ls)
  have "\<exists>B. sections (section_step self pn st l) = sections st @ B"
    by (rule section_step_extends)
  then obtain B where B: "sections (section_step self pn st l) = sections st @ B" by blast
  from Cons.IH [of "section_step self pn st l"] obtain B' where
    "sections (sections_loop self pn ls (section_step self pn st l)) =
       sections (section_step self pn st l) @ B'" by blast
  with B show ?case by simp
qed

lemma section_step_inv:
  assumes secs: "\<forall>r\<in>set (sections st). page_number r = pn \<and> trimmed (title r) \<and> trimmed (content r)"
    and cur: "\<forall>t. current_section st = Some t \<longrightarrow> trimmed t"
  shows "(\<forall>r\<in>set (sections (section_step self pn st l)).
            page_number r = pn \<and> trimmed (title r) \<and> trimmed (content r)) \<and>
         (\<forall>t. current_section (section_step self pn st l) = Some t \<longrightarrow> trimmed t)"
proof (cases "strip l = []")
  case True
  then show ?thesis using secs cur by (simp add: section_step_blank)
next
  case False
  have pt: "trimmed (page_title pn)"
    by (simp add: trimmed_def page_title_def isspace_def code_def)
  show ?thesis
  proof (cases "named (identify_section_type self (strip l))")
    case True
    then obtain ty where ty: "identify_section_type self (strip l) = Some ty"
      by (cases "identify_section_type self (strip l)") (simp_all add: named_def)
    have sp: "\<forall>r\<in>set (save_previous pn st).
        page_number r = pn \<and> trimmed (title r) \<and> trimmed (content r)"
    proof (cases "current_section st")
      case None
      then show ?thesis by (simp add: save_previous_def)
    next
      case (Some t)
      with cur have "trimmed t" by simp
      with Some show ?thesis by (simp add: save_previous_def trimmed_strip)
    qed
    have e: "trimmed []" by (simp add: trimmed_def)
    have "section_step self pn st l =
     \<lparr> sections = sections st @ save_previous pn st @
         [\<lparr> title = strip l, content = [], page_number = pn, section_type = ty \<rparr>],
       current_section = Some (strip l), current_content = [] \<rparr>"
      using False ty True by (intro section_step_heading) simp_all
    then show ?thesis using secs sp e by (simp add: trimmed_strip ball_Un)
  next
    case nn: False
    have "section_step self pn st l =
     st\<lparr> current_section :=
            (case current_section st of
               None \<Rightarrow> Some (page_title pn)
             | Some t \<Rightarrow> if t \<noteq> [] then Some t else Some (page_title pn)),
          current_content := current_content st @ [strip l] \<rparr>"
      using False nn by (rule section_step_body)
    then show ?thesis using secs cur pt by (simp split: option.splits)
  qed
qed

lemma sections_loop_inv:
  assumes "\<forall>r\<in>set (sections st). page_number r = pn \<and> trimmed (title r) \<and> trimmed (content r)"
    and "\<forall>t. current_section st = Some t \<longrightarrow> trimmed t"
  shows "(\<forall>r\<in>set (sections (sections_loop self pn ls st)).
            page_number r = pn \<and> trimmed (title r) \<and> trimmed (content r)) \<and>
         (\<forall>t. current_section (sections_loop self pn ls st) = Some t \<longrightarrow> trimmed t)"
  using assms
proof (induction ls arbitrary: st)
  case Nil
  then show ?case by simp
next
  case (Cons l ls)
  have step: "(\<forall>r\<in>set (sections (section_step self pn st l)).
            page_number r = pn \<and> trimmed (title r) \<and> trimmed (content r)) \<and>
         (\<forall>t. current_section (section_step self pn st l) = Some t \<longrightarrow> trimmed t)"
    using Cons.prems by (rule section_step_inv)
  have "(\<forall>r\<in>set (sections (sections_loop self pn ls (section_step self pn st l))).
            page_number r = pn \<and> trimmed (title r) \<and> trimmed (content r)) \<and>
         (\<forall>t. current_section (sections_loop self pn ls (section_step self pn st l)) = Some t
              \<longrightarrow> trimmed t)"
    using step by (intro Cons.IH) blast+
  then show ?case by (simp only: sections_loop.simps)
qed

subsection \<open>The loop of the abstract extraction\<close>

lemma is_abstract_eq:
  "is_abstract line = re_search (True, cat [Bol, Alt (Lit ''abstract'') (Lit ''summary'')]) line"
  by (simp add: is_abstract_def getitem_abstract del: cat.simps)

lemma abstract_loop_init_step:
  "abstract_loop init i (line # rest) st =
     (if is_abstract line then abstract_loop init (i + 1) rest (Some (i + 1))
      else if truthy_nat st \<and> is_end line then Inr (st, Some i)
      else abstract_loop init (i + 1) rest st)"
  by (simp add: is_abstract_eq getitem_abstract del: cat.simps)

lemma code_lower_char:
  "code (lower_char c) =
     (if (65 \<le> code c \<and> code c \<le> 90) \<or> (192 \<le> code c \<and> code c \<le> 222 \<and> code c \<noteq> 215)
      then code c + 32 else code c)"
  by (auto simp: lower_char_def code_def Let_def)

lemma lit_match_first:
  "lit_match ic (a # as) s \<noteq> [] \<Longrightarrow> s \<noteq> [] \<and> cset_match ic (Chr a) (hd s)"
  by (cases s) (auto split: if_splits)

lemma concat_map_nonempty: "concat (map f xs) \<noteq> [] \<Longrightarrow> xs \<noteq> []"
  by auto

lemma one_char_nonempty: "one_char p s \<noteq> [] \<Longrightarrow> s \<noteq> [] \<and> p (hd s)"
  by (cases s) (auto split: if_splits)

lemma is_abstract_first:
  assumes "is_abstract l"
  shows "l \<noteq> [] \<and> (code (lower_char (hd l)) = 97 \<or> code (lower_char (hd l)) = 115)"
proof -
  from assms have "lit_match True ''abstract'' l \<noteq> [] \<or> lit_match True ''summary'' l \<noteq> []"
    by (simp add: is_abstract_eq re_search_Bol del: lit_match.simps)
  then have "l \<noteq> [] \<and> (cset_match True (Chr CHR ''a'') (hd l) \<or> cset_match True (Chr CHR ''s'') (hd l))"
    using lit_match_first by blast
  then have "l \<noteq> [] \<and> (lower_char (hd l) = CHR ''a'' \<or> lower_char (hd l) = CHR ''s'')"
    by (simp add: lower_char_def code_def)
  then show ?thesis by (auto simp: code_def)
qed

lemma is_end_first:
  assumes "is_end l"
  shows "l \<noteq> [] \<and> (isdigit (hd l) \<or> code (lower_char (hd l)) = 105 \<or>
           code (lower_char (hd l)) = 49 \<or> code (lower_char (hd l)) = 107)"
proof -
  from assms consider
    "re_search end_numbered l" | "re_search end_introduction l" | "re_search end_keywords l"
    by (auto simp: is_end_def)
  then show ?thesis
  proof cases
    case 1
    then have "rests False (length l) (Plus (One Digit)) l \<noteq> []"
      by (auto simp add: end_numbered_def re_search_Bol simp del: rests.simps(11) lit_match.simps)
    then have "one_char (cset_match False Digit) l \<noteq> []"
      by (auto simp del: one_char_simps)
    then show ?thesis using one_char_nonempty [of "cset_match False Digit" l] by simp
  next
    case 2
    then have "lit_match True ''introduction'' l \<noteq> [] \<or> lit_match True ''1.'' l \<noteq> []"
      by (simp add: end_introduction_def re_search_Bol del: lit_match.simps)
    then have "l \<noteq> [] \<and> (cset_match True (Chr CHR ''i'') (hd l) \<or> cset_match True (Chr CHR ''1'') (hd l))"
      using lit_match_first by blast
    then have "l \<noteq> [] \<and> (lower_char (hd l) = CHR ''i'' \<or> lower_char (hd l) = CHR ''1'')"
      by (simp add: lower_char_def code_def)
    then show ?thesis by (auto simp: code_def)
  next
    case 3
    then have "lit_match True ''keyword'' l \<noteq> [] \<or> lit_match True ''key'' l \<noteq> []"
      by (auto simp add: end_keywords_def re_search_Bol simp del: lit_match.simps rests.simps(11,12)
          dest: concat_map_nonempty)
    then have "l \<noteq> [] \<and> cset_match True (Chr CHR ''k'') (hd l)"
      using lit_match_first by blast
    then have "l \<noteq> [] \<and> lower_char (hd l) = CHR ''k''"
      by (simp add: lower_char_def code_def)
    then show ?thesis by (auto simp: code_def)
  qed
qed

lemma abstract_not_end: "is_abstract l \<Longrightarrow> \<not> is_end l"
proof
  assume a: "is_abstract l" and e: "is_end l"
  from is_abstract_first [OF a] have 1: "code (lower_char (hd l)) = 97 \<or> code (lower_char (hd l)) = 115"
    by simp
  from is_end_first [OF e] have 2: "isdigit (hd l) \<or> code (lower_char (hd l)) = 105 \<or>
           code (lower_char (hd l)) = 49 \<or> code (lower_char (hd l)) = 107" by simp
  from 1 2 have "isdigit (hd l)" by auto
  then have "48 \<le> code (hd l) \<and> code (hd l) \<le> 57" by (simp add: isdigit_def Let_def)
  then have "code (lower_char (hd l)) = code (hd l)" by (simp add: code_lower_char)
  with 1 \<open>48 \<le> code (hd l) \<and> code (hd l) \<le> 57\<close> show False by auto
qed


lemma first_index_Some_props:
  "first_index P xs = Some h \<Longrightarrow> h < length xs \<and> P (xs ! h) \<and> (\<forall>j<h. \<not> P (xs ! j))"
proof (induction xs arbitrary: h)
  case Nil
  then show ?case by simp
next
  case (Cons x xs)
  show ?case
  proof (cases "P x")
    case True
    with Cons.prems show ?thesis by simp
  next
    case False
    with Cons.prems obtain h' where h': "first_index P xs = Some h'" "h = Suc h'"
      by auto
    from Cons.IH [OF h'(1)] False h'(2) show ?thesis
      by (auto simp: less_Suc_eq_0_disj)
  qed
qed

lemma last_index_append:
  "last_index P (xs @ ys) =
     (case last_index P ys of
        Some k \<Rightarrow> Some (length xs + k)
      | None \<Rightarrow> last_index P xs)"
  by (induction xs) (auto split: option.splits)

lemma last_index_take_first:
  assumes "first_index P xs = Some h"
  shows "last_index P (take (Suc h) xs) = Some h"
proof -
  from first_index_Some_props [OF assms]
  have h: "h < length xs" "P (xs ! h)" "\<forall>j<h. \<not> P (xs ! j)" by simp_all
  have t: "take (Suc h) xs = take h xs @ [xs ! h]"
    using h(1) by (rule take_Suc_conv_app_nth)
  show ?thesis using h by (simp add: t last_index_append)
qed

text \<open>The loop once a start has been recorded.\<close>

lemma abstract_loop_started:
  "s \<noteq> 0 \<Longrightarrow>
   abstract_loop init i ls (Some s) =
     Inr (case first_index is_end ls of
            None \<Rightarrow>
              (Some (case last_index is_abstract ls of None \<Rightarrow> s | Some k \<Rightarrow> i + k + 1), None)
          | Some j \<Rightarrow>
              (Some (case last_index is_abstract (take j ls) of None \<Rightarrow> s | Some k \<Rightarrow> i + k + 1),
               Some (i + j)))"
proof (induction ls arbitrary: i s)
  case Nil
  then show ?case by simp
next
  case (Cons l ls)
  show ?case
  proof (cases "is_abstract l")
    case True
    then have ne: "\<not> is_end l" by (rule abstract_not_end)
    have "abstract_loop init i (l # ls) (Some s) = abstract_loop init (i + 1) ls (Some (i + 1))"
      using True by (simp only: abstract_loop_init_step if_True)
    also have "\<dots> = Inr (case first_index is_end ls of
            None \<Rightarrow>
              (Some (case last_index is_abstract ls of None \<Rightarrow> i + 1 | Some k \<Rightarrow> (i + 1) + k + 1), None)
          | Some j \<Rightarrow>
              (Some (case last_index is_abstract (take j ls) of None \<Rightarrow> i + 1
                     | Some k \<Rightarrow> (i + 1) + k + 1),
               Some ((i + 1) + j)))"
      by (rule Cons.IH) simp
    finally show ?thesis using True ne
      by (simp split: option.splits)
  next
    case False
    show ?thesis
    proof (cases "is_end l")
      case True
      with False Cons.prems show ?thesis
        by (simp add: abstract_loop_init_step truthy_nat_def del: abstract_loop.simps(2))
    next
      case ne: False
      have "abstract_loop init i (l # ls) (Some s) = abstract_loop init (i + 1) ls (Some s)"
        using False ne by (simp add: abstract_loop_init_step del: abstract_loop.simps(2))
      also have "\<dots> = Inr (case first_index is_end ls of
            None \<Rightarrow>
              (Some (case last_index is_abstract ls of None \<Rightarrow> s | Some k \<Rightarrow> (i + 1) + k + 1), None)
          | Some j \<Rightarrow>
              (Some (case last_index is_abstract (take j ls) of None \<Rightarrow> s
                     | Some k \<Rightarrow> (i + 1) + k + 1),
               Some ((i + 1) + j)))"
        using Cons.prems by (rule Cons.IH)
      finally show ?thesis using False ne
        by (simp split: option.splits)
    qed
  qed
qed

text \<open>The loop until the first abstract heading.\<close>

lemma abstract_loop_unstarted:
  "abstract_loop init i ls None =
     (case first_index is_abstract ls of
        None \<Rightarrow> Inr (None, None)
      | Some h \<Rightarrow> abstract_loop init (i + h + 1) (drop (h + 1) ls) (Some (i + h + 1)))"
proof (induction ls arbitrary: i)
  case Nil
  then show ?case by simp
next
  case (Cons l ls)
  show ?case
  proof (cases "is_abstract l")
    case True
    then show ?thesis by (simp add: abstract_loop_init_step del: abstract_loop.simps(2))
  next
    case False
    then have "abstract_loop init i (l # ls) None = abstract_loop init (i + 1) ls None"
      by (simp add: abstract_loop_init_step truthy_nat_def del: abstract_loop.simps(2))
    with False Cons.IH [of "i + 1"] show ?thesis
      by (simp split: option.splits)
  qed
qed

lemma last_index_scope:
  assumes "first_index P xs = Some h"
  shows "last_index P (take (Suc h) xs @ ys) =
           Some (case last_index P ys of None \<Rightarrow> h | Some k \<Rightarrow> h + 1 + k)"
proof -
  from first_index_Some_props [OF assms] have "h < length xs" by simp
  then have "length (take (Suc h) xs) = Suc h" by simp
  then show ?thesis
    by (simp add: last_index_append last_index_take_first [OF assms] split: option.splits)
qed

subsection \<open>The two models agree\<close>

lemma bind_err_simps [simp]:
  "bind_err (Inl e) f = Inl e"
  "bind_err (Inr x) f = f x"
  by (simp_all add: bind_err_def)

lemma any_word_in_lower_eq:
  "any_word_in_lower ws (PStr l) = Inr (list_ex (\<lambda>w. contains w (lower l)) ws)"
  by (induction ws) simp_all

lemma title_loop_py_eq: "title_loop_py (map PStr ls) = Inr (PStr (title_loop ls))"
  by (induction ls) (simp_all add: Let_def any_word_in_lower_eq del: any_word_in_lower.simps)

lemma extract_title_py_eq:
  "extract_title_py self (PStr text) = Inr (PStr (extract_title self' text))"
  by (simp add: extract_title_py_def extract_title_def take_map title_loop_py_eq)

lemma is_end_py_eq: "is_end_py (PStr l) = Inr (is_end l)"
  by (simp add: is_end_py_def is_end_def)

lemma truthy_opt_int: "truthy (opt_int x) = Inr (truthy_nat x)"
  by (cases x) (simp_all add: opt_int_def truthy_nat_def)

lemma truthy_opt_str:
  "truthy (opt_str x) = Inr (case x of None \<Rightarrow> False | Some t \<Rightarrow> t \<noteq> [])"
  by (cases x) (simp_all add: opt_str_def)

lemma get_pattern_eq:
  assumes "get_patterns self s = Inr (items, s)"
  shows "get_pattern self key s =
     (case getitem items key of Inl e \<Rightarrow> Inl e | Inr p \<Rightarrow> Inr (p, s))"
proof -
  from assms obtain a where self: "self = PRef a"
    by (cases self) simp_all
  from assms self have a: "a < length s"
    by (simp split: if_splits)
  with assms self obtain d where d: "s ! a = ProcObj d"
    by (cases "s ! a") simp_all
  with assms self a have dl: "d < length s"
    by (simp split: if_splits)
  with assms self a d have "s ! d = DictObj items"
    by (cases "s ! d") simp_all
  with self a d dl show ?thesis by simp
qed

lemma abstract_loop_py_eq:
  assumes "get_patterns self s = Inr (items, s)"
  shows "abstract_loop_py self i (map PStr ls) (opt_int st) s =
     (case abstract_loop \<lparr> section_patterns = items \<rparr> i ls st of
        Inl e \<Rightarrow> Inl e
      | Inr (a, b) \<Rightarrow> Inr (opt_int a, opt_int b))"
proof (induction ls arbitrary: i st)
  case Nil
  then show ?case by (simp add: opt_int_def)
next
  case (Cons l ls)
  have next_start: "PInt (int i + 1) = opt_int (Some (i + 1))"
    by (simp add: opt_int_def)
  have stop: "PInt (int i) = opt_int (Some i)"
    by (simp add: opt_int_def)
  note gpe = get_pattern_eq [OF assms, of "''abstract''"]
  show ?case
  proof (cases "getitem items ''abstract''")
    case (Inl e)
    then show ?thesis using gpe by simp
  next
    case (Inr pat)
    show ?thesis
    proof (cases "re_search pat l")
      case True
      have ih: "abstract_loop_py self (i + 1) (map PStr ls) (PInt (int i + 1)) s =
         (case abstract_loop \<lparr> section_patterns = items \<rparr> (i + 1) ls (Some (i + 1)) of
            Inl e \<Rightarrow> Inl e
          | Inr (a, b) \<Rightarrow> Inr (opt_int a, opt_int b))"
        using Cons.IH [of "i + 1" "Some (i + 1)"] by (simp add: opt_int_def add.commute)
      have "abstract_loop_py self i (map PStr (l # ls)) (opt_int st) s =
          abstract_loop_py self (i + 1) (map PStr ls) (PInt (int i + 1)) s"
        using gpe Inr True by simp
      moreover have "abstract_loop \<lparr> section_patterns = items \<rparr> i (l # ls) st =
          abstract_loop \<lparr> section_patterns = items \<rparr> (i + 1) ls (Some (i + 1))"
        using Inr True by simp
      ultimately show ?thesis using ih by (simp only:)
    next
      case False
      have ih: "abstract_loop_py self (i + 1) (map PStr ls) (opt_int st) s =
         (case abstract_loop \<lparr> section_patterns = items \<rparr> (i + 1) ls st of
            Inl e \<Rightarrow> Inl e
          | Inr (a, b) \<Rightarrow> Inr (opt_int a, opt_int b))"
        by (rule Cons.IH)
      show ?thesis
      proof (cases "truthy_nat st \<and> is_end l")
        case True
        have "abstract_loop_py self i (map PStr (l # ls)) (opt_int st) s =
            Inr (opt_int st, PInt (int i))"
          using gpe Inr False True by (simp add: truthy_opt_int is_end_py_eq)
        moreover have "abstract_loop \<lparr> section_patterns = items \<rparr> i (l # ls) st =
            Inr (st, Some i)"
          using Inr False True by simp
        ultimately show ?thesis by (simp add: opt_int_def)
      next
        case nb: False
        have "abstract_loop_py self i (map PStr (l # ls)) (opt_int st) s =
            abstract_loop_py self (i + 1) (map PStr ls) (opt_int st) s"
          using gpe Inr False nb by (auto simp: truthy_opt_int is_end_py_eq)
        moreover have "abstract_loop \<lparr> section_patterns = items \<rparr> i (l # ls) st =
            abstract_loop \<lparr> section_patterns = items \<rparr> (i + 1) ls st"
          using Inr False nb by auto
        ultimately show ?thesis using ih by (simp only:)
      qed
    qed
  qed
qed

lemma slice_bound_nat:
  "slice_bound n d (PInt (int k)) = Inr (min k n)"
  by simp

lemma slice_min: "slice xs (min a (length xs)) (min b (length xs)) = slice xs a b"
proof (cases "a < length xs")
  case True
  then show ?thesis by (cases "b \<le> length xs") (simp_all add: slice_def min_def)
next
  case False
  then show ?thesis by (simp add: slice_def min_def)
qed

lemma py_slice_eq:
  "py_slice (map PStr ls) (PInt (int a)) (PInt (int b)) = Inr (map PStr (slice ls a b))"
proof -
  have "slice (map PStr ls) (min a (length ls)) (min b (length ls)) = map PStr (slice ls a b)"
    using slice_min [of ls a b] by (simp add: slice_def take_map drop_map)
  then show ?thesis
    by (simp add: py_slice_def del: slice_bound.simps)
      (simp add: slice_bound_nat del: slice_bound.simps)
qed

lemma strings_of_map: "strings_of (map PStr ss) = Inr ss"
  by (induction ss) simp_all

lemma join_vals_eq: "join_vals sep (map PStr ss) = Inr (PStr (join sep ss))"
  by (simp add: join_vals_def strings_of_map)

lemma extract_abstract_py_eq:
  assumes "get_patterns self s = Inr (items, s)"
  shows "extract_abstract_py self (PStr text) s =
     (case extract_abstract \<lparr> section_patterns = items \<rparr> text of
        Inl e \<Rightarrow> Inl e
      | Inr r \<Rightarrow> Inr (opt_str r, s))"
proof (cases "abstract_loop \<lparr> section_patterns = items \<rparr> 0 (split_nl text) None")
  case (Inl e)
  then show ?thesis
    using abstract_loop_py_eq [OF assms, of 0 "split_nl text" None]
    by (simp add: extract_abstract_py_def extract_abstract_def opt_int_def)
next
  case (Inr p)
  obtain a b where p: "p = (a, b)" by (cases p)
  have loop: "abstract_loop_py self 0 (map PStr (split_nl text)) PNone s = Inr (opt_int a, opt_int b)"
    using abstract_loop_py_eq [OF assms, of 0 "split_nl text" None] Inr p
    by (simp add: opt_int_def)
  show ?thesis
  proof (cases a)
    case None
    then show ?thesis using Inr p loop
      by (simp add: extract_abstract_py_def extract_abstract_def opt_int_def opt_str_def)
  next
    case (Some start)
    have add: "py_add (PInt (int start)) (PInt 10) = Inr (PInt (int (start + 10)))"
      by simp
    show ?thesis
    proof (cases b)
      case None
      then show ?thesis using Inr p loop Some
        by (simp add: extract_abstract_py_def extract_abstract_def opt_int_def opt_str_def
            Let_def add py_slice_eq join_vals_eq del: py_add.simps of_nat_add)
    next
      case (Some stop)
      then show ?thesis using Inr p loop \<open>a = Some start\<close>
        by (simp add: extract_abstract_py_def extract_abstract_def opt_int_def opt_str_def
            Let_def add py_slice_eq join_vals_eq del: py_add.simps of_nat_add)
    qed
  qed
qed

lemma bind_py_simps [simp]:
  "bind_py (unit_py x) f s = f x s"
  "bind_py (lift_py (Inr x)) f s = f x s"
  "bind_py (lift_py (Inl e)) f s = Inl e"
  by (simp_all add: bind_py_def unit_py_def lift_py_def)

lemma opt_str_simps [simp]:
  "opt_str None = PNone"
  "opt_str (Some t) = PStr t"
  by (simp_all add: opt_str_def)

lemma bind_py_Inr: "m s = Inr (x, s') \<Longrightarrow> bind_py m f s = f x s'"
  by (simp add: bind_py_def)

lemma take_length_le: "take (length s0) s = s0 \<Longrightarrow> length s0 \<le> length s"
proof -
  assume "take (length s0) s = s0"
  then have "length (take (length s0) s) = length s0" by simp
  then show ?thesis by (simp add: min_def split: if_splits)
qed

lemma lift_py_simps [simp]:
  "lift_py (Inr x) s = Inr (x, s)"
  "lift_py (Inl e) s = Inl e"
  by (simp_all add: lift_py_def)

lemma get_patterns_frame:
  assumes "get_patterns self s0 = Inr (items, s0)" "take (length s0) s = s0"
  shows "get_patterns self s = Inr (items, s)"
proof -
  from assms(1) obtain a where self: "self = PRef a"
    by (cases self) simp_all
  from assms(1) self have a: "a < length s0"
    by (simp split: if_splits)
  with assms(1) self obtain d where d: "s0 ! a = ProcObj d"
    by (cases "s0 ! a") simp_all
  with assms(1) self a have dl: "d < length s0"
    by (simp split: if_splits)
  with assms(1) self a d have dd: "s0 ! d = DictObj items"
    by (cases "s0 ! d") simp_all
  have le: "length s0 \<le> length s" using assms(2) by (rule take_length_le)
  have "s ! a = take (length s0) s ! a" using a by simp
  then have sa: "s ! a = ProcObj d" using assms(2) d by simp
  have "s ! d = take (length s0) s ! d" using dl by simp
  then have sd: "s ! d = DictObj items" using assms(2) dd by simp
  show ?thesis using self a dl le sa sd by simp
qed

lemma first_match_py_eq:
  "first_match_py items (PStr l) = Inr (opt_str (first_match items l))"
  by (induction items) (auto simp: opt_str_def)

lemma identify_py_eq:
  "get_patterns self s = Inr (items, s) \<Longrightarrow>
   identify_section_type_py self (PStr l) s =
     Inr (opt_str (identify_section_type \<lparr> section_patterns = items \<rparr> l), s)"
  by (simp add: identify_section_type_py_def identify_section_type_def bind_py_Inr
      first_match_py_eq)

lemma list_append_ok:
  "a < length s \<Longrightarrow> s ! a = ListObj xs \<Longrightarrow>
   list_append (PRef a) v s = Inr ((), s[a := ListObj (xs @ [v])])"
  by simp

lemma get_list_ok:
  "a < length s \<Longrightarrow> s ! a = ListObj xs \<Longrightarrow> get_list (PRef a) s = Inr (xs, s)"
  by simp

lemma append_closing_ok:
  assumes "v_sections L = PRef a" "v_current_content L = PRef c" "v_current_section L = PStr t"
    and "a < length s" "c < length s"
    and "s ! a = ListObj (map PSection secs)" "s ! c = ListObj (map PStr buf)"
  shows "append_closing pn L s =
     Inr ((), s[a := ListObj (map PSection
        (secs @ [\<lparr> title = t, content = strip (join '' '' buf), page_number = pn,
                   section_type = ''section'' \<rparr>]))])"
  using assms
  by (simp add: append_closing_def bind_py_Inr [OF get_list_ok] join_vals_eq
      del: get_list.simps list_append.simps)
    (simp add: list_append_ok)

lemma bind_new_list [simp]:
  "bind_py new_list f s = f (PRef (length s)) (s @ [ListObj []])"
  by (simp add: bind_py_def new_list_def)

lemma section_step_py_rel:
  assumes P: "get_patterns self s0 = Inr (items, s0)" and R: "sections_rel s0 L st s"
  shows "\<exists>L' s'. section_step_py self pn L (PStr raw) s = Inr (L', s') \<and>
           sections_rel s0 L' (section_step \<lparr> section_patterns = items \<rparr> pn st raw) s' \<and>
           v_sections L' = v_sections L"
proof -
  let ?self = "\<lparr> section_patterns = items \<rparr>"
  from R obtain a c where
    fr: "take (length s0) s = s0" and va: "v_sections L = PRef a"
    and vc: "v_current_content L = PRef c"
    and la: "length s0 \<le> a" and lc: "length s0 \<le> c"
    and al: "a < length s" and cl: "c < length s" and ac: "a \<noteq> c"
    and sa: "s ! a = ListObj (map PSection (sections st))"
    and sc: "s ! c = ListObj (map PStr (current_content st))"
    and vs: "v_current_section L = opt_str (current_section st)"
    by (auto simp: sections_rel_def)
  have gp: "get_patterns self s = Inr (items, s)" using P fr by (rule get_patterns_frame)
  show ?thesis
  proof (cases "strip raw = []")
    case True
    have "section_step_py self pn L (PStr raw) s = Inr (L, s)"
      using True by (simp add: section_step_py_def unit_py_def)
    with True R show ?thesis by (simp add: section_step_blank)
  next
    case nb: False
    define sty where "sty = identify_section_type ?self (strip raw)"
    have idp: "identify_section_type_py self (PStr (strip raw)) s = Inr (opt_str sty, s)"
      unfolding sty_def using gp by (rule identify_py_eq)
    have bid: "bind_py (identify_section_type_py self (PStr (strip raw))) f s = f (opt_str sty) s"
      for f :: "pyval \<Rightarrow> locals py"
      using idp by (simp add: bind_py_def)
    show ?thesis
    proof (cases "named sty")
      case True
      then obtain ty where ty: "sty = Some ty" "ty \<noteq> []" "ty \<noteq> ''section''"
        by (cases sty) (simp_all add: named_def)
      define secs1 where "secs1 = sections st @ save_previous pn st"
      define s1 where "s1 = s[a := ListObj (map PSection secs1)]"
      define sec where "sec = \<lparr> title = strip raw, content = [], page_number = pn,
        section_type = ty \<rparr>"
      define L' where "L' = L\<lparr> v_current_section := PStr (strip raw),
        v_current_content := PRef (length s) \<rparr>"
      define s' where "s' = (s1 @ [ListObj []])[a := ListObj (map PSection (secs1 @ [sec]))]"
      have s1_len: "length s1 = length s" by (simp add: s1_def)
      have s1a: "s1 ! a = ListObj (map PSection secs1)" using al by (simp add: s1_def)
      have closing: "bind_py (lift_py (truthy (v_current_section L)))
          (\<lambda>open_section. bind_py (if open_section then append_closing pn L else unit_py ()) f) s
          = f () s1" for f :: "unit \<Rightarrow> locals py"
      proof (cases "current_section st")
        case None
        then have "s1 = s" using sa al by (simp add: s1_def secs1_def save_previous_def list_update_same_conv)
        with None vs show ?thesis by (simp add:)
      next
        case (Some t)
        show ?thesis
        proof (cases "t = []")
          case True
          then have "s1 = s" using Some sa al
            by (simp add: s1_def secs1_def save_previous_def list_update_same_conv)
          with True Some vs show ?thesis by (simp add:)
        next
          case False
          have "append_closing pn L s = Inr ((), s1)"
            using va vc vs Some al cl sa sc False
            by (simp add: append_closing_ok [where t = t] s1_def secs1_def
                save_previous_def del: append_closing_def)
          with False Some vs show ?thesis
            by (simp add: bind_py_Inr)
        qed
      qed
      have app: "list_append (PRef a) v (s1 @ [ListObj []]) =
          Inr ((), (s1 @ [ListObj []])[a := ListObj (map PSection secs1 @ [v])])" for v
        using al s1a s1_len by (simp add: nth_append)
      have step: "section_step_py self pn L (PStr raw) s = Inr (L', s')"
        using nb ty al va
        by (simp add: section_step_py_def bid closing s1_len
            L'_def s'_def sec_def del: list_append.simps)
          (simp add: bind_py_def app unit_py_def del: list_append.simps)
      have typed: "section_step ?self pn st raw =
          \<lparr> sections = secs1 @ [sec], current_section = Some (strip raw), current_content = [] \<rparr>"
        using section_step_heading [of raw ?self ty pn st] nb ty
        by (simp add: sty_def [symmetric] named_def secs1_def sec_def)
      have "sections_rel s0 L' (section_step ?self pn st raw) s'"
        unfolding sections_rel_def typed
        using fr la lc al ac va
        by (auto simp: L'_def s'_def s1_def nth_append nth_list_update)
      moreover have "v_sections L' = v_sections L" by (simp add: L'_def)
      ultimately show ?thesis using step by blast
    next
      case nn: False
      have typed: "section_step ?self pn st raw =
        st\<lparr> current_section :=
            (case current_section st of
               None \<Rightarrow> Some (page_title pn)
             | Some t \<Rightarrow> if t \<noteq> [] then Some t else Some (page_title pn)),
          current_content := current_content st @ [strip raw] \<rparr>"
        using nb nn unfolding sty_def by (rule section_step_body)
      define cs' where "cs' = (case current_section st of
               None \<Rightarrow> Some (page_title pn)
             | Some t \<Rightarrow> if t \<noteq> [] then Some t else Some (page_title pn))"
      define L' where "L' = L\<lparr> v_current_section := opt_str cs' \<rparr>"
      define s' where "s' = s[c := ListObj (map PStr (current_content st @ [strip raw]))]"
      have kinds: "opt_str sty = PNone \<or> opt_str sty = PStr [] \<or> opt_str sty = PStr ''section''"
        using nn by (cases sty) (auto simp: named_def)
      have app: "list_append (PRef c) v s =
          Inr ((), s[c := ListObj (map PStr (current_content st) @ [v])])" for v
        using cl sc by simp
      have step: "section_step_py self pn L (PStr raw) s = Inr (L', s')"
      proof (cases "current_section st")
        case None
        then have vs': "v_current_section L = PNone" using vs by simp
        from kinds show ?thesis
          using nb vc None
          by (elim disjE;
              simp add: section_step_py_def bid vs' L'_def s'_def cs'_def page_title_def
                del: list_append.simps;
              simp add: bind_py_def app unit_py_def del: list_append.simps)
      next
        case (Some t)
        then have vs': "v_current_section L = PStr t" using vs by simp
        then have same: "L\<lparr> v_current_section := PStr t \<rparr> = L" by (cases L) simp
        from kinds show ?thesis
          using nb vc Some same
          by (cases "t = []"; elim disjE;
              simp add: section_step_py_def bid vs' L'_def s'_def cs'_def page_title_def
                del: list_append.simps;
              simp add: bind_py_def app unit_py_def del: list_append.simps)
      qed
      have "sections_rel s0 L' (section_step ?self pn st raw) s'"
        unfolding sections_rel_def typed
        using fr la lc al cl ac va vc sa
        by (auto simp: L'_def s'_def cs'_def nth_list_update)
      moreover have "v_sections L' = v_sections L" by (simp add: L'_def)
      ultimately show ?thesis using step by blast
    qed
  qed
qed

lemma sections_loop_py_rel:
  assumes P: "get_patterns self s0 = Inr (items, s0)" and R: "sections_rel s0 L st s"
  shows "\<exists>L' s'. sections_loop_py self pn (map PStr ls) L s = Inr (L', s') \<and>
           sections_rel s0 L' (sections_loop \<lparr> section_patterns = items \<rparr> pn ls st) s' \<and>
           v_sections L' = v_sections L"
  using R
proof (induction ls arbitrary: L st s)
  case Nil
  then show ?case by simp
next
  case (Cons l ls)
  from section_step_py_rel [OF P Cons.prems, of pn l] obtain L1 s1 where
    1: "section_step_py self pn L (PStr l) s = Inr (L1, s1)"
    and 2: "sections_rel s0 L1 (section_step \<lparr> section_patterns = items \<rparr> pn st l) s1"
    and 3: "v_sections L1 = v_sections L"
    by blast
  from Cons.IH [OF 2] obtain L' s' where
    4: "sections_loop_py self pn (map PStr ls) L1 s1 = Inr (L', s')"
    and 5: "sections_rel s0 L'
       (sections_loop \<lparr> section_patterns = items \<rparr> pn ls
          (section_step \<lparr> section_patterns = items \<rparr> pn st l)) s'"
    and 6: "v_sections L' = v_sections L1"
    by blast
  from 1 4 have "sections_loop_py self pn (map PStr (l # ls)) L s = Inr (L', s')"
    by simp
  with 5 6 3 show ?case by simp
qed

lemma extract_sections_py_eq:
  assumes P: "get_patterns self s0 = Inr (items, s0)"
  shows "\<exists>s'. extract_sections_py self (PStr text) pn s0 = Inr (PRef (length s0), s') \<and>
           take (length s0) s' = s0 \<and> length s0 < length s' \<and>
           s' ! length s0 =
             ListObj (map PSection (extract_sections \<lparr> section_patterns = items \<rparr> text pn))"
proof -
  let ?self = "\<lparr> section_patterns = items \<rparr>"
  define st0 where "st0 = \<lparr> sections = [], current_section = None, current_content = [] \<rparr>"
  define L0 where "L0 = \<lparr> v_sections = PRef (length s0), v_current_section = PNone,
    v_current_content = PRef (Suc (length s0)) \<rparr>"
  define sA where "sA = (s0 @ [ListObj []]) @ [ListObj []]"
  define st where "st = sections_loop ?self pn (split_nl text) st0"
  have "sections_rel s0 L0 st0 sA"
    by (simp add: sections_rel_def L0_def st0_def sA_def nth_append)
  from sections_loop_py_rel [OF P this, of pn "split_nl text"] obtain L1 s1 where
    loop: "sections_loop_py self pn (map PStr (split_nl text)) L0 sA = Inr (L1, s1)"
    and rel: "sections_rel s0 L1 st s1"
    and v: "v_sections L1 = PRef (length s0)"
    by (auto simp: st_def L0_def)
  from rel v obtain c where
    fr: "take (length s0) s1 = s0" and vc: "v_current_content L1 = PRef c"
    and al: "length s0 < length s1" and cl: "c < length s1"
    and sa: "s1 ! length s0 = ListObj (map PSection (sections st))"
    and sc: "s1 ! c = ListObj (map PStr (current_content st))"
    and vs: "v_current_section L1 = opt_str (current_section st)"
    by (auto simp: sections_rel_def)
  have start: "extract_sections_py self (PStr text) pn s0 =
      bind_py (lift_py (truthy (v_current_section L1))) (\<lambda>open_section.
      bind_py (if open_section then get_list (v_current_content L1) else unit_py []) (\<lambda>items.
      bind_py (if open_section \<and> items \<noteq> [] then append_closing pn L1 else unit_py ())
        (\<lambda>u. unit_py (v_sections L1)))) s1"
    using loop
    by (simp add: extract_sections_py_def L0_def sA_def bind_py_Inr)
  have typed: "extract_sections ?self text pn = sections st @ save_last pn st"
    by (simp add: extract_sections_def st_def st0_def Let_def)
  define s' where "s' = s1[length s0 := ListObj (map PSection (sections st @ save_last pn st))]"
  have fin: "extract_sections_py self (PStr text) pn s0 = Inr (PRef (length s0), s')"
  proof (cases "current_section st")
    case None
    then have "s' = s1" using sa al
      by (simp add: s'_def save_last_def save_previous_def list_update_same_conv)
    with None vs v show ?thesis by (simp add: start unit_py_def)
  next
    case (Some t)
    show ?thesis
    proof (cases "t = [] \<or> current_content st = []")
      case True
      then have "s' = s1" using Some sa al
        by (auto simp: s'_def save_last_def save_previous_def list_update_same_conv)
      with True Some vs v vc cl sc show ?thesis
        by (auto simp: start unit_py_def bind_py_def)
    next
      case False
      then have vs': "v_current_section L1 = PStr t" using vs Some by simp
      have "append_closing pn L1 s1 = Inr ((), s')"
        using v vc vs' al cl sa sc False Some
        by (simp add: append_closing_ok [where t = t] s'_def save_last_def save_previous_def)
      with False vs' vc cl sc v show ?thesis
        by (simp add: start unit_py_def bind_py_def)
    qed
  qed
  moreover have "take (length s0) s' = s0" using fr by (simp add: s'_def)
  moreover have "length s0 < length s'" using al by (simp add: s'_def)
  moreover have "s' ! length s0 = ListObj (map PSection (extract_sections ?self text pn))"
    using al by (simp add: s'_def typed)
  ultimately show ?thesis by blast
qed

lemma calls_py_rel:
  assumes "get_patterns self s = Inr (items, s)"
  shows "\<exists>rs s'. calls_py self cs s = Inr (rs, s') \<and> take (length s) s' = s \<and>
           length rs = length cs \<and>
           (\<forall>i<length cs. \<exists>a. rs ! i = PRef a \<and> length s \<le> a \<and> a < length s' \<and>
              s' ! a = ListObj (map PSection
                (extract_sections \<lparr> section_patterns = items \<rparr> (fst (cs ! i)) (snd (cs ! i)))))"
  using assms
proof (induction cs arbitrary: s)
  case Nil
  then show ?case by simp
next
  case (Cons call cs)
  let ?self = "\<lparr> section_patterns = items \<rparr>"
  obtain tx pn where call: "call = (tx, pn)" by (cases call)
  from extract_sections_py_eq [OF Cons.prems, of tx pn] obtain s1 where
    1: "extract_sections_py self (PStr tx) pn s = Inr (PRef (length s), s1)"
    and f1: "take (length s) s1 = s" and l1: "length s < length s1"
    and r1: "s1 ! length s = ListObj (map PSection (extract_sections ?self tx pn))"
    by blast
  have p1: "get_patterns self s1 = Inr (items, s1)"
    using Cons.prems f1 by (rule get_patterns_frame)
  from Cons.IH [OF p1] obtain rs s' where
    2: "calls_py self cs s1 = Inr (rs, s')" and f2: "take (length s1) s' = s1"
    and len: "length rs = length cs"
    and each: "\<forall>i<length cs. \<exists>a. rs ! i = PRef a \<and> length s1 \<le> a \<and> a < length s' \<and>
              s' ! a = ListObj (map PSection
                (extract_sections ?self (fst (cs ! i)) (snd (cs ! i))))"
    by blast
  have l2: "length s1 \<le> length s'" using f2 by (rule take_length_le)
  have run: "calls_py self (call # cs) s = Inr (PRef (length s) # rs, s')"
    using 1 2 call by simp
  have "take (length s) s' = take (length s) (take (length s1) s')"
    using l1 by (simp add: min_def)
  then have frame: "take (length s) s' = s" using f1 f2 by simp
  have "s' ! length s = take (length s1) s' ! length s" using l1 by simp
  then have head: "s' ! length s = ListObj (map PSection (extract_sections ?self tx pn))"
    using f2 r1 by simp
  have "\<exists>a. (PRef (length s) # rs) ! i = PRef a \<and> length s \<le> a \<and> a < length s' \<and>
              s' ! a = ListObj (map PSection
                (extract_sections ?self (fst ((call # cs) ! i)) (snd ((call # cs) ! i))))"
    if "i < length (call # cs)" for i
  proof (cases i)
    case 0
    with head l1 l2 call show ?thesis by simp
  next
    case (Suc j)
    with that have "j < length cs" by simp
    with each obtain a where "rs ! j = PRef a" "length s1 \<le> a" "a < length s'"
      "s' ! a = ListObj (map PSection (extract_sections ?self (fst (cs ! j)) (snd (cs ! j))))"
      by blast
    with Suc l1 show ?thesis by simp
  qed
  with run frame len show ?case by simp
qed

lemma init_record: "\<lparr> section_patterns = section_patterns init \<rparr> = init"
  by simp

lemma new_processor_patterns:
  "new_processor s0 = Inr (self, s) \<Longrightarrow> get_patterns self s = Inr (section_patterns init, s)"
  by (auto simp: new_processor_def nth_append)

section \<open>Empty and blank input\<close>

text \<open>
  C3. In the model over Python values every operation raises on a value of the wrong
  kind, and so do the three methods on a text that is no string: on \<^verbatim>\<open>None\<close> each raises
  \<^verbatim>\<open>AttributeError\<close> at \<^verbatim>\<open>text.split\<close>. On a string no operation of the three methods
  raises, whatever the string: with a processor that \<^verbatim>\<open>DocumentProcessor()\<close> has created,
  \<open>extract_title_py\<close> returns the title, \<open>extract_abstract_py\<close> the abstract or \<^verbatim>\<open>None\<close>, and
  \<open>extract_sections_py\<close> a reference to the list of sections, each the value of the first
  model. On the empty text these are the empty list, \<^verbatim>\<open>Untitled Document\<close> and no abstract.
\<close>

theorem segmenter_never_raises:
  "(new_processor s0 = Inr (self, s) \<longrightarrow>
      extract_title_py self (PStr text) = Inr (PStr (extract_title init text)) \<and>
      (\<exists>r. extract_abstract init text = Inr r \<and>
           extract_abstract_py self (PStr text) s = Inr (opt_str r, s)) \<and>
      (\<exists>a s'. extract_sections_py self (PStr text) pn s = Inr (PRef a, s') \<and>
           a < length s' \<and>
           s' ! a = ListObj (map PSection (extract_sections init text pn)))) \<and>
   extract_title_py self PNone = Inl AttributeError \<and>
   extract_abstract_py self PNone s = Inl AttributeError \<and>
   extract_sections_py self PNone pn s = Inl AttributeError \<and>
   extract_sections init [] pn = [] \<and>
   extract_title init [] = ''Untitled Document'' \<and>
   extract_abstract init [] = Inr None"
proof (intro conjI impI)
  assume np: "new_processor s0 = Inr (self, s)"
  then have gp: "get_patterns self s = Inr (section_patterns init, s)"
    by (rule new_processor_patterns)
  show "extract_title_py self (PStr text) = Inr (PStr (extract_title init text))"
    by (rule extract_title_py_eq)
  obtain r where r: "extract_abstract init text = Inr r"
  proof -
    obtain a b where "abstract_loop init 0 (split_nl text) None = Inr (a, b)"
      using abstract_loop_total [of 0 "split_nl text" None] by auto
    then have "\<exists>r. extract_abstract init text = Inr r"
      by (simp add: extract_abstract_def Let_def split: option.splits)
    then show ?thesis using that by blast
  qed
  with extract_abstract_py_eq [OF gp, of "text"]
  show "\<exists>r. extract_abstract init text = Inr r \<and>
           extract_abstract_py self (PStr text) s = Inr (opt_str r, s)"
    by (simp add: init_record)
  from extract_sections_py_eq [OF gp, of "text" pn]
  show "\<exists>a s'. extract_sections_py self (PStr text) pn s = Inr (PRef a, s') \<and>
           a < length s' \<and>
           s' ! a = ListObj (map PSection (extract_sections init text pn))"
    by (auto simp: init_record)
next
  show "extract_title_py self PNone = Inl AttributeError"
    by (simp add: extract_title_py_def)
  show "extract_abstract_py self PNone s = Inl AttributeError"
    by (simp add: extract_abstract_py_def)
  show "extract_sections_py self PNone pn s = Inl AttributeError"
    by (simp add: extract_sections_py_def)
  show "extract_sections init [] pn = []"
    by (simp add: extract_sections_def section_step_def strip_def save_last_def)
  show "extract_title init [] = ''Untitled Document''"
    by (simp add: extract_title_def strip_def)
  show "extract_abstract init [] = Inr None"
    by (simp add: extract_abstract_def getitem_abstract re_search_Bol is_end_def
        end_numbered_def end_introduction_def end_keywords_def one_char_def truthy_nat_def)
qed

theorem segmenter_never_raises_witness:
  "extract_title_py (PRef 1) (PStr ''Summary'') =
     Inr (PStr (extract_title init ''Summary'')) \<and>
   (\<exists>r. extract_abstract init ''Summary'' = Inr r \<and>
        extract_abstract_py (PRef 1) (PStr ''Summary'')
          [DictObj (section_patterns init), ProcObj 0] =
        Inr (opt_str r, [DictObj (section_patterns init), ProcObj 0])) \<and>
   (\<exists>a s'. extract_sections_py (PRef 1) (PStr ''Summary'') 1
          [DictObj (section_patterns init), ProcObj 0] = Inr (PRef a, s') \<and>
        a < length s' \<and>
        s' ! a = ListObj (map PSection (extract_sections init ''Summary'' 1)))"
proof -
  have "new_processor [] = Inr (PRef 1, [DictObj (section_patterns init), ProcObj 0])"
    by (simp add: new_processor_def)
  with segmenter_never_raises
    [of "[]" "PRef 1" "[DictObj (section_patterns init), ProcObj 0]" "''Summary''" 1]
  show ?thesis by blast
qed

text \<open>
  C7. A page whose lines are all blank (made of whitespace only) gives no section. A blank
  line leaves the state of the loop as it is: the sections emitted so far, the current
  section and the content buffer.
\<close>

theorem blank_page_no_sections:
  "((\<forall>l\<in>set (split_nl text). \<forall>c\<in>set l. isspace c) \<longrightarrow> extract_sections self text pn = []) \<and>
   ((\<forall>c\<in>set l. isspace c) \<longrightarrow> section_step self pn st l = st)"
proof (intro conjI impI)
  assume "\<forall>l\<in>set (split_nl text). \<forall>c\<in>set l. isspace c"
  then have "\<forall>l\<in>set (split_nl text). strip l = []"
    by (simp add: strip_Nil_iff)
  then show "extract_sections self text pn = []"
    by (simp add: extract_sections_def sections_loop_blank save_last_def)
next
  assume "\<forall>c\<in>set l. isspace c"
  then show "section_step self pn st l = st"
    by (simp add: section_step_blank strip_Nil_iff)
qed

theorem blank_page_no_sections_witness:
  "split_nl [CHR '' '', CHR 0x09, CHR 0x0A, CHR 0x0A, CHR '' ''] =
     [ [CHR '' '', CHR 0x09], [], [CHR '' ''] ] \<and>
   extract_sections init [CHR '' '', CHR 0x09, CHR 0x0A, CHR 0x0A, CHR '' ''] 4 = []"
proof -
  have s: "split_nl [CHR '' '', CHR 0x09, CHR 0x0A, CHR 0x0A, CHR '' ''] =
     [ [CHR '' '', CHR 0x09], [], [CHR '' ''] ]"
    by simp
  have "\<forall>l\<in>set (split_nl [CHR '' '', CHR 0x09, CHR 0x0A, CHR 0x0A, CHR '' '']). \<forall>c\<in>set l. isspace c"
    unfolding s by (simp add: isspace_def code_def)
  with blank_page_no_sections [of "[CHR '' '', CHR 0x09, CHR 0x0A, CHR 0x0A, CHR '' '']" init 4] s
  show ?thesis by blast
qed

section \<open>Classification of a line\<close>

text \<open>
  C5. The keys of the table are, in order, title, abstract, introduction, methodology,
  results, conclusion, references, section. \<open>identify_section_type\<close> returns the key at
  the first index whose pattern the line matches, and nothing when no pattern matches.
  The line \<^verbatim>\<open>2. Methodology\<close> is a methodology line, although the pattern of the generic
  section, later in the table, matches it too.
\<close>

theorem identify_section_type_priority:
  "map fst (section_patterns init) =
     [''title'', ''abstract'', ''introduction'', ''methodology'', ''results'',
      ''conclusion'', ''references'', ''section''] \<and>
   (identify_section_type init line = Some k \<longleftrightarrow>
      (\<exists>i<8. fst (section_patterns init ! i) = k \<and>
         re_search (snd (section_patterns init ! i)) line \<and>
         (\<forall>j<i. \<not> re_search (snd (section_patterns init ! j)) line))) \<and>
   (identify_section_type init line = None \<longleftrightarrow>
      (\<forall>i<8. \<not> re_search (snd (section_patterns init ! i)) line)) \<and>
   identify_section_type init ''2. Methodology'' = Some ''methodology'' \<and>
   re_search (snd (section_patterns init ! 7)) ''2. Methodology''"
proof -
  have len: "length (section_patterns init) = 8"
    by (simp add: init_def)
  have "map fst (section_patterns init) =
     [''title'', ''abstract'', ''introduction'', ''methodology'', ''results'',
      ''conclusion'', ''references'', ''section'']"
    by (simp add: init_def)
  moreover have "identify_section_type init line = Some k \<longleftrightarrow>
      (\<exists>i<8. fst (section_patterns init ! i) = k \<and>
         re_search (snd (section_patterns init ! i)) line \<and>
         (\<forall>j<i. \<not> re_search (snd (section_patterns init ! j)) line))"
    using first_match_Some_iff [of "section_patterns init" line k]
    by (simp only: identify_section_type_def len)
  moreover have "identify_section_type init line = None \<longleftrightarrow>
      (\<forall>i<8. \<not> re_search (snd (section_patterns init ! i)) line)"
    using first_match_None_iff [of "section_patterns init" line]
    by (simp only: identify_section_type_def len)
  moreover have "identify_section_type init ''2. Methodology'' = Some ''methodology''"
    by code_simp
  moreover have "re_search (snd (section_patterns init ! 7)) ''2. Methodology''"
    by code_simp
  ultimately show ?thesis by blast
qed

theorem identify_section_type_priority_witness:
  "identify_section_type init ''3 Discussion'' = Some ''section'' \<and>
   (\<exists>i<8. fst (section_patterns init ! i) = ''section'' \<and>
      re_search (snd (section_patterns init ! i)) ''3 Discussion'' \<and>
      (\<forall>j<i. \<not> re_search (snd (section_patterns init ! j)) ''3 Discussion''))"
proof -
  have "identify_section_type init ''3 Discussion'' = Some ''section''"
    by code_simp
  with identify_section_type_priority [of "''3 Discussion''" "''section''"]
  show ?thesis by blast
qed

text \<open>
  C9, as the code has it. Every line that starts with one of the letters A to Z, the
  range of the title pattern, and has no full stop, exclamation mark or question mark is
  classified as a title, the first key of the table. The record emitted at once for such
  a line carries the type title: so it is for the headings \<^verbatim>\<open>Abstract\<close>, \<^verbatim>\<open>Introduction\<close>
  and \<^verbatim>\<open>Results\<close>.
\<close>

theorem uppercase_unpunctuated_line_is_title:
  "(line \<noteq> [] \<and> code CHR ''A'' \<le> code (hd line) \<and> code (hd line) \<le> code CHR ''Z'' \<and>
    (\<forall>c\<in>set line. c \<notin> {CHR ''.'', CHR ''!'', CHR ''?''}) \<longrightarrow>
      identify_section_type init line = Some ''title'' \<and>
      (strip raw = line \<longrightarrow>
         section_step init pn st raw =
           \<lparr> sections = sections st @ save_previous pn st @
               [\<lparr> title = line, content = [], page_number = pn, section_type = ''title'' \<rparr>],
             current_section = Some line, current_content = [] \<rparr>)) \<and>
   identify_section_type init ''Abstract'' = Some ''title'' \<and>
   identify_section_type init ''Introduction'' = Some ''title'' \<and>
   identify_section_type init ''Results'' = Some ''title''"
proof -
  have gen: "identify_section_type init l = Some ''title''"
    if "l \<noteq> []" "code CHR ''A'' \<le> code (hd l)" "code (hd l) \<le> code CHR ''Z''"
      "\<forall>c\<in>set l. c \<notin> {CHR ''.'', CHR ''!'', CHR ''?''}" for l
  proof -
    from that have "re_search (False, cat [Bol, Set [Rng CHR ''A'' CHR ''Z''],
           Star (NSet [Chr CHR ''.'', Chr CHR ''!'', Chr CHR ''?'']), Eol]) l"
      by (intro title_pattern_matches) simp_all
    then show ?thesis
      by (simp add: identify_section_type_def init_def del: cat.simps)
  qed
  have step: "section_step init pn st raw =
           \<lparr> sections = sections st @ save_previous pn st @
               [\<lparr> title = l, content = [], page_number = pn, section_type = ''title'' \<rparr>],
             current_section = Some l, current_content = [] \<rparr>"
    if "l \<noteq> []" "identify_section_type init l = Some ''title''" "strip raw = l" for l
    using that by (simp add: section_step_def named_def)
  have "identify_section_type init ''Abstract'' = Some ''title''"
    by (rule gen) (simp_all add: code_def)
  moreover have "identify_section_type init ''Introduction'' = Some ''title''"
    by (rule gen) (simp_all add: code_def)
  moreover have "identify_section_type init ''Results'' = Some ''title''"
    by (rule gen) (simp_all add: code_def)
  ultimately show ?thesis using gen step by blast
qed

theorem uppercase_unpunctuated_line_is_title_witness:
  "identify_section_type init ''Related Work'' = Some ''title'' \<and>
   section_step init 2 \<lparr> sections = [], current_section = None, current_content = [] \<rparr>
       ''  Related Work '' =
     \<lparr> sections = [\<lparr> title = ''Related Work'', content = [], page_number = 2,
                      section_type = ''title'' \<rparr>],
       current_section = Some ''Related Work'', current_content = [] \<rparr>"
proof -
  have s: "strip ''  Related Work '' = ''Related Work''"
    by (simp add: strip_def isspace_def code_def)
  have h: "''Related Work'' \<noteq> [] \<and> code CHR ''A'' \<le> code (hd ''Related Work'') \<and>
      code (hd ''Related Work'') \<le> code CHR ''Z'' \<and>
      (\<forall>c\<in>set ''Related Work''. c \<notin> {CHR ''.'', CHR ''!'', CHR ''?''})"
    by (simp add: code_def)
  from uppercase_unpunctuated_line_is_title
    [of "''Related Work''" "''  Related Work ''" 2
        "\<lparr> sections = [], current_section = None, current_content = [] \<rparr>"] h s
  show ?thesis by (simp add: save_previous_def)
qed

text \<open>
  C9, as it is stated, fails for an upper-case letter outside A to Z: a line that starts
  with a capital E with an acute accent and has none of the three marks matches no
  pattern of the table.
\<close>

theorem uppercase_outside_range_counterexample:
  "isupper (hd ([CHR 0xC9] @ ''lan vital'')) \<and>
   CHR ''.'' \<notin> set ([CHR 0xC9] @ ''lan vital'') \<and>
   CHR ''!'' \<notin> set ([CHR 0xC9] @ ''lan vital'') \<and>
   CHR ''?'' \<notin> set ([CHR 0xC9] @ ''lan vital'') \<and>
   identify_section_type init ([CHR 0xC9] @ ''lan vital'') = None"
proof -
  have "isupper (hd ([CHR 0xC9] @ ''lan vital''))"
    by (simp add: isupper_def code_def)
  moreover have "identify_section_type init ([CHR 0xC9] @ ''lan vital'') = None"
    by code_simp
  ultimately show ?thesis by simp
qed

section \<open>The title of the document\<close>

text \<open>
  C4. \<open>extract_title\<close> looks at the first ten lines, each one trimmed, and returns the
  first trimmed line that has more than 10 and fewer than 200 characters and whose
  lower-case form contains none of the words abstract, introduction, page and doi; when
  there is none it returns \<^verbatim>\<open>Untitled Document\<close>. On the three lines \<^verbatim>\<open>Introduction\<close>,
  \<^verbatim>\<open>A Study of Widgets\<close>, \<^verbatim>\<open>DOI: 10.1/x\<close> it returns the second.
\<close>

theorem extract_title_first_candidate:
  "extract_title self text =
     (case find (\<lambda>l. 10 < length l \<and> length l < 200 \<and>
                  \<not> (\<exists>w\<in>set [''abstract'', ''introduction'', ''page'', ''doi''].
                       \<exists>a b. lower l = a @ w @ b))
             (map strip (take 10 (split_nl text))) of
        None \<Rightarrow> ''Untitled Document''
      | Some l \<Rightarrow> l) \<and>
   extract_title init (''Introduction'' @ [CHR 0x0A] @ ''A Study of Widgets'' @ [CHR 0x0A] @
       ''DOI: 10.1/x'') = ''A Study of Widgets''"
proof
  show "extract_title self text =
     (case find (\<lambda>l. 10 < length l \<and> length l < 200 \<and>
                  \<not> (\<exists>w\<in>set [''abstract'', ''introduction'', ''page'', ''doi''].
                       \<exists>a b. lower l = a @ w @ b))
             (map strip (take 10 (split_nl text))) of
        None \<Rightarrow> ''Untitled Document''
      | Some l \<Rightarrow> l)"
    unfolding extract_title_def by (rule title_loop_find)
  show "extract_title init (''Introduction'' @ [CHR 0x0A] @ ''A Study of Widgets'' @ [CHR 0x0A] @
       ''DOI: 10.1/x'') = ''A Study of Widgets''"
    by code_simp
qed

theorem extract_title_first_candidate_witness:
  "(case find (\<lambda>l. 10 < length l \<and> length l < 200 \<and>
                  \<not> (\<exists>w\<in>set [''abstract'', ''introduction'', ''page'', ''doi''].
                       \<exists>a b. lower l = a @ w @ b))
             (map strip (take 10 (split_nl (''Page 1 of 12 pages'' @ [CHR 0x0A] @ ''short'' @
                [CHR 0x0A] @ ''   Widget Durability Studies  '')))) of
        None \<Rightarrow> ''Untitled Document''
      | Some l \<Rightarrow> l) = ''Widget Durability Studies''"
proof -
  have e: "extract_title init (''Page 1 of 12 pages'' @ [CHR 0x0A] @ ''short'' @
                [CHR 0x0A] @ ''   Widget Durability Studies  '') = ''Widget Durability Studies''"
    by code_simp
  from extract_title_first_candidate [of init "''Page 1 of 12 pages'' @ [CHR 0x0A] @ ''short'' @
                [CHR 0x0A] @ ''   Widget Durability Studies  ''"]
  have "extract_title init (''Page 1 of 12 pages'' @ [CHR 0x0A] @ ''short'' @
                [CHR 0x0A] @ ''   Widget Durability Studies  '') =
      (case find (\<lambda>l. 10 < length l \<and> length l < 200 \<and>
                  \<not> (\<exists>w\<in>set [''abstract'', ''introduction'', ''page'', ''doi''].
                       \<exists>a b. lower l = a @ w @ b))
             (map strip (take 10 (split_nl (''Page 1 of 12 pages'' @ [CHR 0x0A] @ ''short'' @
                [CHR 0x0A] @ ''   Widget Durability Studies  '')))) of
        None \<Rightarrow> ''Untitled Document''
      | Some l \<Rightarrow> l)"
    by (rule conjunct1)
  from this [symmetric] e show ?thesis by (rule trans)
qed

section \<open>Segmentation of a page\<close>

text \<open>
  C6. When exactly one line of the page is not blank, and that line, trimmed, is classified
  as the generic section or not at all, the page gives one record: its title is
  \<^verbatim>\<open>Page N Content\<close> for the page number \<open>N\<close>, its content is the trimmed line and its type
  is section.
\<close>

theorem single_body_line_page:
  "filter (\<lambda>l. strip l \<noteq> []) (split_nl text) = [l] \<and>
   identify_section_type self (strip l) \<in> {None, Some ''section''} \<longrightarrow>
     extract_sections self text pn =
       [\<lparr> title = ''Page '' @ str_int pn @ '' Content'', content = strip l,
          page_number = pn, section_type = ''section'' \<rparr>]"
proof
  assume a: "filter (\<lambda>l. strip l \<noteq> []) (split_nl text) = [l] \<and>
    identify_section_type self (strip l) \<in> {None, Some ''section''}"
  then have "l \<in> set (filter (\<lambda>l. strip l \<noteq> []) (split_nl text))" by simp
  then have nb: "strip l \<noteq> []" by simp
  from a have nn: "\<not> named (identify_section_type self (strip l))"
    by (auto simp: named_def)
  define st0 where "st0 = \<lparr> sections = [], current_section = None, current_content = [] \<rparr>"
  have "sections_loop self pn (split_nl text) st0 = sections_loop self pn [l] st0"
    using a sections_loop_filter [of self pn "split_nl text" st0] by simp
  also have "\<dots> = section_step self pn st0 l" by simp
  also have "\<dots> = \<lparr> sections = [], current_section = Some (page_title pn),
                      current_content = [strip l] \<rparr>"
    using section_step_body [OF nb nn, of pn st0] by (simp add: st0_def)
  finally have "sections_loop self pn (split_nl text) st0 =
      \<lparr> sections = [], current_section = Some (page_title pn), current_content = [strip l] \<rparr>" .
  then show "extract_sections self text pn =
       [\<lparr> title = ''Page '' @ str_int pn @ '' Content'', content = strip l,
          page_number = pn, section_type = ''section'' \<rparr>]"
    by (simp add: extract_sections_def st0_def [symmetric] save_last_def save_previous_def
        page_title_def strip_idem)
qed

theorem single_body_line_page_witness:
  "extract_sections init ([CHR 0x0A] @ ''  3 Discussion of results.  '' @ [CHR 0x0A] @ '' '') 12 =
     [\<lparr> title = ''Page 12 Content'', content = ''3 Discussion of results.'',
        page_number = 12, section_type = ''section'' \<rparr>]"
proof -
  let ?t = "[CHR 0x0A] @ ''  3 Discussion of results.  '' @ [CHR 0x0A] @ '' ''"
  have f: "filter (\<lambda>l. strip l \<noteq> []) (split_nl ?t) = [''  3 Discussion of results.  '']"
    by (simp add: strip_def isspace_def code_def)
  have s: "strip ''  3 Discussion of results.  '' = ''3 Discussion of results.''"
    by (simp add: strip_def isspace_def code_def)
  have i: "identify_section_type init ''3 Discussion of results.'' = Some ''section''"
    by code_simp
  have n: "str_int 12 = ''12''"
    by code_simp
  from single_body_line_page [of ?t "''  3 Discussion of results.  ''" init 12] f s i n
  show ?thesis by simp
qed

text \<open>
  C10. Every record that \<open>extract_sections\<close> returns carries the page number it was given,
  and its title and its content are trimmed.
\<close>

theorem sections_page_number_and_trimmed:
  "\<forall>r\<in>set (extract_sections self text pn).
     page_number r = pn \<and> trimmed (title r) \<and> trimmed (content r)"
proof -
  define st0 where "st0 = \<lparr> sections = [], current_section = None, current_content = [] \<rparr>"
  define st where "st = sections_loop self pn (split_nl text) st0"
  have inv: "(\<forall>r\<in>set (sections st). page_number r = pn \<and> trimmed (title r) \<and> trimmed (content r)) \<and>
         (\<forall>t. current_section st = Some t \<longrightarrow> trimmed t)"
    unfolding st_def by (rule sections_loop_inv) (simp_all add: st0_def)
  have "\<forall>r\<in>set (save_last pn st). page_number r = pn \<and> trimmed (title r) \<and> trimmed (content r)"
  proof (cases "current_section st")
    case None
    then show ?thesis by (simp add: save_last_def save_previous_def)
  next
    case (Some t)
    with inv have "trimmed t" by simp
    with Some show ?thesis by (simp add: save_last_def save_previous_def trimmed_strip)
  qed
  with inv have "\<forall>r\<in>set (sections st @ save_last pn st).
      page_number r = pn \<and> trimmed (title r) \<and> trimmed (content r)"
    by (simp add: ball_Un)
  then show ?thesis
    by (simp only: extract_sections_def Let_def st_def st0_def)
qed

theorem sections_page_number_and_trimmed_witness:
  "extract_sections init (''  Background  '' @ [CHR 0x0A] @ [CHR 0x09] @ ''Widgets wear out. '') 7 =
     [\<lparr> title = ''Background'', content = [], page_number = 7, section_type = ''title'' \<rparr>,
      \<lparr> title = ''Background'', content = ''Widgets wear out.'', page_number = 7,
        section_type = ''section'' \<rparr>] \<and>
   trimmed ''Background'' \<and> trimmed [] \<and> trimmed ''Widgets wear out.''"
proof -
  let ?t = "''  Background  '' @ [CHR 0x0A] @ [CHR 0x09] @ ''Widgets wear out. ''"
  have e: "extract_sections init ?t 7 =
     [\<lparr> title = ''Background'', content = [], page_number = 7, section_type = ''title'' \<rparr>,
      \<lparr> title = ''Background'', content = ''Widgets wear out.'', page_number = 7,
        section_type = ''section'' \<rparr>]"
    by code_simp
  from sections_page_number_and_trimmed [of init ?t 7] show ?thesis
    unfolding e by (simp add: e)
qed

text \<open>
  C8. Take a store in which \<open>self\<close> is a processor with some table of patterns, and make
  any calls of \<open>extract_sections\<close> on it, one after the other. No call raises; every object
  that was in the store before, the table among them, is afterwards what it was; every call
  returns a list object of its own, created by that call; and at the end each of these lists
  holds the sections that the text and page number of its call give on their own, whatever
  calls came before or after. So two calls with the same text and page number give equal
  lists.
\<close>

theorem extract_sections_repeatable:
  "get_patterns self s = Inr (items, s) \<longrightarrow>
     (\<exists>rs s'. calls_py self cs s = Inr (rs, s') \<and>
        take (length s) s' = s \<and>
        get_patterns self s' = Inr (items, s') \<and>
        length rs = length cs \<and>
        (\<forall>i<length cs. \<exists>a. rs ! i = PRef a \<and> length s \<le> a \<and> a < length s' \<and>
           s' ! a = ListObj (map PSection
             (extract_sections \<lparr> section_patterns = items \<rparr> (fst (cs ! i)) (snd (cs ! i))))) \<and>
        (\<forall>i<length cs. \<forall>j<length cs. cs ! i = cs ! j \<longrightarrow>
           (\<exists>a b. rs ! i = PRef a \<and> rs ! j = PRef b \<and> s' ! a = s' ! b)))"
proof
  assume gp: "get_patterns self s = Inr (items, s)"
  from calls_py_rel [OF gp, of cs] obtain rs s' where
    run: "calls_py self cs s = Inr (rs, s')" and fr: "take (length s) s' = s"
    and len: "length rs = length cs"
    and each: "\<forall>i<length cs. \<exists>a. rs ! i = PRef a \<and> length s \<le> a \<and> a < length s' \<and>
           s' ! a = ListObj (map PSection
             (extract_sections \<lparr> section_patterns = items \<rparr> (fst (cs ! i)) (snd (cs ! i))))"
    by blast
  have gp': "get_patterns self s' = Inr (items, s')" using gp fr by (rule get_patterns_frame)
  have same: "\<exists>a b. rs ! i = PRef a \<and> rs ! j = PRef b \<and> s' ! a = s' ! b"
    if "i < length cs" "j < length cs" "cs ! i = cs ! j" for i j
  proof -
    from each that(1) obtain a where a: "rs ! i = PRef a"
      "s' ! a = ListObj (map PSection
         (extract_sections \<lparr> section_patterns = items \<rparr> (fst (cs ! i)) (snd (cs ! i))))"
      by blast
    from each that(2) obtain b where b: "rs ! j = PRef b"
      "s' ! b = ListObj (map PSection
         (extract_sections \<lparr> section_patterns = items \<rparr> (fst (cs ! j)) (snd (cs ! j))))"
      by blast
    from a(2) b(2) that(3) have "s' ! a = s' ! b" by simp
    with a(1) b(1) show ?thesis by blast
  qed
  show "\<exists>rs s'. calls_py self cs s = Inr (rs, s') \<and>
        take (length s) s' = s \<and>
        get_patterns self s' = Inr (items, s') \<and>
        length rs = length cs \<and>
        (\<forall>i<length cs. \<exists>a. rs ! i = PRef a \<and> length s \<le> a \<and> a < length s' \<and>
           s' ! a = ListObj (map PSection
             (extract_sections \<lparr> section_patterns = items \<rparr> (fst (cs ! i)) (snd (cs ! i))))) \<and>
        (\<forall>i<length cs. \<forall>j<length cs. cs ! i = cs ! j \<longrightarrow>
           (\<exists>a b. rs ! i = PRef a \<and> rs ! j = PRef b \<and> s' ! a = s' ! b))"
    using run fr gp' len each same
    by (intro exI [of _ rs] exI [of _ s'] conjI allI impI) blast+
qed

theorem extract_sections_repeatable_witness:
  "\<exists>rs s' a b.
     calls_py (PRef 1) [(''methods'', 1), (''Results'', 2), (''methods'', 1)]
       [DictObj (section_patterns init), ProcObj 0] = Inr (rs, s') \<and>
     rs ! 0 = PRef a \<and> rs ! 2 = PRef b \<and> s' ! a = s' ! b \<and>
     s' ! a = ListObj (map PSection (extract_sections init ''methods'' 1)) \<and>
     take 2 s' = [DictObj (section_patterns init), ProcObj 0]"
proof -
  define s where "s = [DictObj (section_patterns init), ProcObj 0]"
  define cs where "cs = [(''methods'', 1), (''Results'', 2), (''methods'', 1 :: int)]"
  have len: "length s = 2" "length cs = 3" by (simp_all add: s_def cs_def)
  have c0: "cs ! 0 = (''methods'', 1)" and c2: "cs ! 2 = (''methods'', 1)"
    by (simp_all add: cs_def)
  have gp: "get_patterns (PRef 1) s = Inr (section_patterns init, s)"
    by (simp add: s_def)
  have "\<exists>rs s'. calls_py (PRef 1) cs s = Inr (rs, s') \<and>
        take (length s) s' = s \<and>
        get_patterns (PRef 1) s' = Inr (section_patterns init, s') \<and>
        length rs = length cs \<and>
        (\<forall>i<length cs. \<exists>a. rs ! i = PRef a \<and> length s \<le> a \<and> a < length s' \<and>
           s' ! a = ListObj (map PSection
             (extract_sections \<lparr> section_patterns = section_patterns init \<rparr>
                (fst (cs ! i)) (snd (cs ! i))))) \<and>
        (\<forall>i<length cs. \<forall>j<length cs. cs ! i = cs ! j \<longrightarrow>
           (\<exists>a b. rs ! i = PRef a \<and> rs ! j = PRef b \<and> s' ! a = s' ! b))"
    using extract_sections_repeatable [of "PRef 1" s "section_patterns init" cs] gp
    by (rule mp)
  then obtain rs s' where run: "calls_py (PRef 1) cs s = Inr (rs, s')"
    and fr: "take (length s) s' = s"
    and each: "\<forall>i<length cs. \<exists>a. rs ! i = PRef a \<and> length s \<le> a \<and> a < length s' \<and>
           s' ! a = ListObj (map PSection
             (extract_sections \<lparr> section_patterns = section_patterns init \<rparr>
                (fst (cs ! i)) (snd (cs ! i))))"
    by (elim exE conjE)
  have "0 < length cs" by (simp add: len)
  with each obtain a where a: "rs ! 0 = PRef a"
    "s' ! a = ListObj (map PSection
       (extract_sections \<lparr> section_patterns = section_patterns init \<rparr>
          (fst (cs ! 0)) (snd (cs ! 0))))"
    by blast
  have "2 < length cs" by (simp add: len)
  with each obtain b where b: "rs ! 2 = PRef b"
    "s' ! b = ListObj (map PSection
       (extract_sections \<lparr> section_patterns = section_patterns init \<rparr>
          (fst (cs ! 2)) (snd (cs ! 2))))"
    by blast
  have a': "s' ! a = ListObj (map PSection (extract_sections init ''methods'' 1))"
    using a(2) by (simp only: c0 fst_conv snd_conv init_record)
  have b': "s' ! b = ListObj (map PSection (extract_sections init ''methods'' 1))"
    using b(2) by (simp only: c2 fst_conv snd_conv init_record)
  have t: "take 2 s' = s" using fr by (simp only: len)
  have "calls_py (PRef 1) cs s = Inr (rs, s') \<and>
     rs ! 0 = PRef a \<and> rs ! 2 = PRef b \<and> s' ! a = s' ! b \<and>
     s' ! a = ListObj (map PSection (extract_sections init ''methods'' 1)) \<and>
     take 2 s' = s"
    using run a(1) b(1) a' b' t by (simp only:)
  then show ?thesis unfolding s_def cs_def by blast
qed

lemma two_headings_records:
  assumes "strip h \<noteq> []" "identify_section_type self (strip h) = Some ty" "named (Some ty)"
    and "strip h2 \<noteq> []" "identify_section_type self (strip h2) = Some ty2" "named (Some ty2)"
    and "\<forall>b\<in>set body. strip b = [] \<or> \<not> named (identify_section_type self (strip b))"
    and "split_nl text = pre @ h # body @ h2 # post"
  shows "\<exists>A B. extract_sections self text pn =
        A @ [\<lparr> title = strip h, content = [], page_number = pn, section_type = ty \<rparr>,
             \<lparr> title = strip h,
               content = strip (join '' '' (filter (\<lambda>b. b \<noteq> []) (map strip body))),
               page_number = pn, section_type = ''section'' \<rparr>,
             \<lparr> title = strip h2, content = [], page_number = pn, section_type = ty2 \<rparr>] @ B \<and>
        A = (let st = sections_loop self pn pre
                        \<lparr> sections = [], current_section = None, current_content = [] \<rparr>
             in sections st @ save_previous pn st)"
proof -
  note a = assms
  define st0 where "st0 = \<lparr> sections = [], current_section = None, current_content = [] \<rparr>"
  define stp where "stp = sections_loop self pn pre st0"
  define s3 where "s3 = sections_loop self pn (h # body @ [h2]) stp"
  define fin where "fin = sections_loop self pn post s3"
  let ?recs = "[\<lparr> title = strip h, content = [], page_number = pn, section_type = ty \<rparr>,
             \<lparr> title = strip h,
               content = strip (join '' '' (filter (\<lambda>b. b \<noteq> []) (map strip body))),
               page_number = pn, section_type = ''section'' \<rparr>,
             \<lparr> title = strip h2, content = [], page_number = pn, section_type = ty2 \<rparr>]"
  have s3: "s3 = \<lparr> sections = sections stp @ save_previous pn stp @ ?recs,
       current_section = Some (strip h2), current_content = [] \<rparr>"
    unfolding s3_def using a by (intro sections_loop_two_headings) blast+
  have "split_nl text = pre @ (h # body @ [h2]) @ post" using a by simp
  then have fin: "sections_loop self pn (split_nl text) st0 = fin"
    by (simp only: sections_loop_append fin_def s3_def stp_def)
  obtain B' where "sections fin = sections s3 @ B'"
    unfolding fin_def using sections_loop_extends by blast
  then have "sections fin = (sections stp @ save_previous pn stp) @ ?recs @ B'"
    by (simp add: s3)
  then have "extract_sections self text pn =
      (sections stp @ save_previous pn stp) @ ?recs @ (B' @ save_last pn fin)"
    by (simp add: extract_sections_def st0_def [symmetric] fin)
  then show ?thesis
    by (simp only: Let_def stp_def st0_def) blast
qed

lemma last_heading_records:
  assumes "strip h \<noteq> []" "identify_section_type self (strip h) = Some ty" "named (Some ty)"
    and "\<forall>b\<in>set body. strip b = [] \<or> \<not> named (identify_section_type self (strip b))"
    and "split_nl text = pre @ h # body"
  shows "extract_sections self text pn =
      (let st = sections_loop self pn pre
                  \<lparr> sections = [], current_section = None, current_content = [] \<rparr>
       in sections st @ save_previous pn st) @
      [\<lparr> title = strip h, content = [], page_number = pn, section_type = ty \<rparr>] @
      (if filter (\<lambda>b. b \<noteq> []) (map strip body) = [] then []
       else [\<lparr> title = strip h,
               content = strip (join '' '' (filter (\<lambda>b. b \<noteq> []) (map strip body))),
               page_number = pn, section_type = ''section'' \<rparr>])"
proof -
  define st0 where "st0 = \<lparr> sections = [], current_section = None, current_content = [] \<rparr>"
  define stp where "stp = sections_loop self pn pre st0"
  define s1 where "s1 = section_step self pn stp h"
  define s2 where "s2 = sections_loop self pn body s1"
  have s1: "s1 = \<lparr> sections = sections stp @ save_previous pn stp @
         [\<lparr> title = strip h, content = [], page_number = pn, section_type = ty \<rparr>],
       current_section = Some (strip h), current_content = [] \<rparr>"
    unfolding s1_def using assms(1-3) by (rule section_step_heading)
  have "s2 = s1\<lparr> current_content := current_content s1 @ filter (\<lambda>b. b \<noteq> []) (map strip body) \<rparr>"
    unfolding s2_def using assms(4)
    by (rule sections_loop_body [where t = "strip h"]) (simp_all add: s1 assms(1))
  then have s2: "s2 = \<lparr> sections = sections stp @ save_previous pn stp @
         [\<lparr> title = strip h, content = [], page_number = pn, section_type = ty \<rparr>],
       current_section = Some (strip h),
       current_content = filter (\<lambda>b. b \<noteq> []) (map strip body) \<rparr>"
    by (simp add: s1)
  have "split_nl text = pre @ [h] @ body" using assms(5) by simp
  then have fin: "sections_loop self pn (split_nl text) st0 = s2"
    by (simp add: sections_loop_append s2_def s1_def stp_def)
  have "extract_sections self text pn = sections s2 @ save_last pn s2"
    by (simp add: extract_sections_def st0_def [symmetric] fin)
  also have "\<dots> = (sections stp @ save_previous pn stp) @
      [\<lparr> title = strip h, content = [], page_number = pn, section_type = ty \<rparr>] @
      (if filter (\<lambda>b. b \<noteq> []) (map strip body) = [] then []
       else [\<lparr> title = strip h,
               content = strip (join '' '' (filter (\<lambda>b. b \<noteq> []) (map strip body))),
               page_number = pn, section_type = ''section'' \<rparr>])"
    using assms(1) by (simp add: s2 save_last_def save_previous_def)
  finally show ?thesis
    by (simp only: Let_def stp_def st0_def)
qed

text \<open>
  C2, as the code has it. A line classified as a named type produces one record at once:
  the line as title, empty content, the type detected for the line. A second record, with
  the same title, the lines that follow and are not blank, trimmed, joined with single
  spaces and trimmed, and the type section, is produced in two ways. When a next named
  heading closes the section, the second record follows the first directly, before the
  record of that next heading; when the two headings follow each other with nothing in
  between, its content is empty. When the heading is the last named line of the page, the
  second record comes from the save at the end of the page, and only when a line that is
  not blank follows the heading: otherwise the heading has its one record.
\<close>

theorem heading_records:
  "(strip h \<noteq> [] \<and> identify_section_type self (strip h) = Some ty \<and> named (Some ty) \<and>
    strip h2 \<noteq> [] \<and> identify_section_type self (strip h2) = Some ty2 \<and> named (Some ty2) \<and>
    (\<forall>b\<in>set body. strip b = [] \<or> \<not> named (identify_section_type self (strip b))) \<and>
    split_nl text = pre @ h # body @ h2 # post \<longrightarrow>
      (\<exists>A B. extract_sections self text pn =
         A @ [\<lparr> title = strip h, content = [], page_number = pn, section_type = ty \<rparr>,
              \<lparr> title = strip h,
                content = strip (join '' '' (filter (\<lambda>b. b \<noteq> []) (map strip body))),
                page_number = pn, section_type = ''section'' \<rparr>,
              \<lparr> title = strip h2, content = [], page_number = pn, section_type = ty2 \<rparr>] @ B \<and>
         A = (let st = sections_loop self pn pre
                         \<lparr> sections = [], current_section = None, current_content = [] \<rparr>
              in sections st @ save_previous pn st))) \<and>
   (strip h \<noteq> [] \<and> identify_section_type self (strip h) = Some ty \<and> named (Some ty) \<and>
    strip h2 \<noteq> [] \<and> identify_section_type self (strip h2) = Some ty2 \<and> named (Some ty2) \<and>
    split_nl text = pre @ h # h2 # post \<longrightarrow>
      (\<exists>A B. extract_sections self text pn =
         A @ [\<lparr> title = strip h, content = [], page_number = pn, section_type = ty \<rparr>,
              \<lparr> title = strip h, content = [], page_number = pn, section_type = ''section'' \<rparr>,
              \<lparr> title = strip h2, content = [], page_number = pn, section_type = ty2 \<rparr>] @ B)) \<and>
   (strip h \<noteq> [] \<and> identify_section_type self (strip h) = Some ty \<and> named (Some ty) \<and>
    (\<forall>b\<in>set body. strip b = [] \<or> \<not> named (identify_section_type self (strip b))) \<and>
    split_nl text = pre @ h # body \<longrightarrow>
      extract_sections self text pn =
        (let st = sections_loop self pn pre
                    \<lparr> sections = [], current_section = None, current_content = [] \<rparr>
         in sections st @ save_previous pn st) @
        [\<lparr> title = strip h, content = [], page_number = pn, section_type = ty \<rparr>] @
        (if filter (\<lambda>b. b \<noteq> []) (map strip body) = [] then []
         else [\<lparr> title = strip h,
                 content = strip (join '' '' (filter (\<lambda>b. b \<noteq> []) (map strip body))),
                 page_number = pn, section_type = ''section'' \<rparr>]))"
proof (intro conjI impI)
  assume "strip h \<noteq> [] \<and> identify_section_type self (strip h) = Some ty \<and> named (Some ty) \<and>
    strip h2 \<noteq> [] \<and> identify_section_type self (strip h2) = Some ty2 \<and> named (Some ty2) \<and>
    (\<forall>b\<in>set body. strip b = [] \<or> \<not> named (identify_section_type self (strip b))) \<and>
    split_nl text = pre @ h # body @ h2 # post"
  then show "\<exists>A B. extract_sections self text pn =
         A @ [\<lparr> title = strip h, content = [], page_number = pn, section_type = ty \<rparr>,
              \<lparr> title = strip h,
                content = strip (join '' '' (filter (\<lambda>b. b \<noteq> []) (map strip body))),
                page_number = pn, section_type = ''section'' \<rparr>,
              \<lparr> title = strip h2, content = [], page_number = pn, section_type = ty2 \<rparr>] @ B \<and>
         A = (let st = sections_loop self pn pre
                         \<lparr> sections = [], current_section = None, current_content = [] \<rparr>
              in sections st @ save_previous pn st)"
    by (intro two_headings_records) blast+
next
  assume a: "strip h \<noteq> [] \<and> identify_section_type self (strip h) = Some ty \<and> named (Some ty) \<and>
    strip h2 \<noteq> [] \<and> identify_section_type self (strip h2) = Some ty2 \<and> named (Some ty2) \<and>
    split_nl text = pre @ h # h2 # post"
  have e: "strip (join '' '' (filter (\<lambda>b. b \<noteq> []) (map strip []))) = []"
    by (simp add: strip_def)
  from a have "split_nl text = pre @ h # [] @ h2 # post" by simp
  with a have "\<exists>A B. extract_sections self text pn =
         A @ [\<lparr> title = strip h, content = [], page_number = pn, section_type = ty \<rparr>,
              \<lparr> title = strip h,
                content = strip (join '' '' (filter (\<lambda>b. b \<noteq> []) (map strip []))),
                page_number = pn, section_type = ''section'' \<rparr>,
              \<lparr> title = strip h2, content = [], page_number = pn, section_type = ty2 \<rparr>] @ B \<and>
         A = (let st = sections_loop self pn pre
                         \<lparr> sections = [], current_section = None, current_content = [] \<rparr>
              in sections st @ save_previous pn st)"
    by (intro two_headings_records) simp_all
  then show "\<exists>A B. extract_sections self text pn =
         A @ [\<lparr> title = strip h, content = [], page_number = pn, section_type = ty \<rparr>,
              \<lparr> title = strip h, content = [], page_number = pn, section_type = ''section'' \<rparr>,
              \<lparr> title = strip h2, content = [], page_number = pn, section_type = ty2 \<rparr>] @ B"
    unfolding e by blast
next
  assume "strip h \<noteq> [] \<and> identify_section_type self (strip h) = Some ty \<and> named (Some ty) \<and>
    (\<forall>b\<in>set body. strip b = [] \<or> \<not> named (identify_section_type self (strip b))) \<and>
    split_nl text = pre @ h # body"
  then show "extract_sections self text pn =
        (let st = sections_loop self pn pre
                    \<lparr> sections = [], current_section = None, current_content = [] \<rparr>
         in sections st @ save_previous pn st) @
        [\<lparr> title = strip h, content = [], page_number = pn, section_type = ty \<rparr>] @
        (if filter (\<lambda>b. b \<noteq> []) (map strip body) = [] then []
         else [\<lparr> title = strip h,
                 content = strip (join '' '' (filter (\<lambda>b. b \<noteq> []) (map strip body))),
                 page_number = pn, section_type = ''section'' \<rparr>])"
    by (intro last_heading_records) blast+
qed


theorem heading_records_witness:
  "(\<exists>A B. extract_sections init
       (''preface line.'' @ [CHR 0x0A] @ ''2. Methods'' @ [CHR 0x0A] @ ''We ran trials.'' @
        [CHR 0x0A, CHR 0x0A] @ ''  twice.  '' @ [CHR 0x0A] @ ''3. Results'' @ [CHR 0x0A] @ ''good.'') 1 =
      A @ [\<lparr> title = ''2. Methods'', content = [], page_number = 1, section_type = ''methodology'' \<rparr>,
           \<lparr> title = ''2. Methods'', content = ''We ran trials. twice.'', page_number = 1,
             section_type = ''section'' \<rparr>,
           \<lparr> title = ''3. Results'', content = [], page_number = 1, section_type = ''results'' \<rparr>] @ B) \<and>
   (\<exists>A B. extract_sections init (''abstract'' @ [CHR 0x0A] @ ''1. Introduction'') 1 =
      A @ [\<lparr> title = ''abstract'', content = [], page_number = 1, section_type = ''abstract'' \<rparr>,
           \<lparr> title = ''abstract'', content = [], page_number = 1, section_type = ''section'' \<rparr>,
           \<lparr> title = ''1. Introduction'', content = [], page_number = 1,
             section_type = ''introduction'' \<rparr>] @ B) \<and>
   (\<exists>A. extract_sections init (''preface line.'' @ [CHR 0x0A] @ ''2. Methods'' @ [CHR 0x0A] @
        ''We ran trials.'') 1 =
      A @ [\<lparr> title = ''2. Methods'', content = [], page_number = 1, section_type = ''methodology'' \<rparr>,
           \<lparr> title = ''2. Methods'', content = ''We ran trials.'', page_number = 1,
             section_type = ''section'' \<rparr>]) \<and>
   (\<exists>A. extract_sections init (''preface line.'' @ [CHR 0x0A] @ ''2. Methods'' @ [CHR 0x0A] @ ''  '') 1 =
      A @ [\<lparr> title = ''2. Methods'', content = [], page_number = 1,
             section_type = ''methodology'' \<rparr>])"
proof -
  let ?t = "''preface line.'' @ [CHR 0x0A] @ ''2. Methods'' @ [CHR 0x0A] @ ''We ran trials.'' @
        [CHR 0x0A, CHR 0x0A] @ ''  twice.  '' @ [CHR 0x0A] @ ''3. Results'' @ [CHR 0x0A] @ ''good.''"
  let ?body = "[''We ran trials.'', [], ''  twice.  '']"
  have sp: "split_nl ?t = [''preface line.''] @ ''2. Methods'' # ?body @ ''3. Results'' # [''good.'']"
    by simp
  have st: "strip ''2. Methods'' = ''2. Methods''" "strip ''3. Results'' = ''3. Results''"
    "strip ''We ran trials.'' = ''We ran trials.''" "strip [] = []" "strip ''  twice.  '' = ''twice.''"
    by (simp_all add: strip_def isspace_def code_def)
  have ty: "identify_section_type init ''2. Methods'' = Some ''methodology''"
    "identify_section_type init ''3. Results'' = Some ''results''"
    "identify_section_type init ''We ran trials.'' = None"
    "identify_section_type init ''twice.'' = None"
    by code_simp+
  have hyp: "strip ''2. Methods'' \<noteq> [] \<and>
    identify_section_type init (strip ''2. Methods'') = Some ''methodology'' \<and>
    named (Some ''methodology'') \<and> strip ''3. Results'' \<noteq> [] \<and>
    identify_section_type init (strip ''3. Results'') = Some ''results'' \<and>
    named (Some ''results'') \<and>
    (\<forall>b\<in>set ?body. strip b = [] \<or> \<not> named (identify_section_type init (strip b))) \<and>
    split_nl ?t = [''preface line.''] @ ''2. Methods'' # ?body @ ''3. Results'' # [''good.'']"
    using sp by (simp add: st ty named_def)
  let ?u = "''abstract'' @ [CHR 0x0A] @ ''1. Introduction''"
  have ty2: "identify_section_type init ''abstract'' = Some ''abstract''"
    "identify_section_type init ''1. Introduction'' = Some ''introduction''"
    by code_simp+
  have st2: "strip ''abstract'' = ''abstract''" "strip ''1. Introduction'' = ''1. Introduction''"
    by (simp_all add: strip_def isspace_def code_def)
  have hyp2: "strip ''abstract'' \<noteq> [] \<and>
    identify_section_type init (strip ''abstract'') = Some ''abstract'' \<and>
    named (Some ''abstract'') \<and> strip ''1. Introduction'' \<noteq> [] \<and>
    identify_section_type init (strip ''1. Introduction'') = Some ''introduction'' \<and>
    named (Some ''introduction'') \<and>
    split_nl ?u = [] @ ''abstract'' # ''1. Introduction'' # []"
    by (simp add: st2 ty2 named_def)
  have j: "strip (join '' '' (filter (\<lambda>b. b \<noteq> []) (map strip ?body))) = ''We ran trials. twice.''"
    by (simp add: st) (simp add: strip_def isspace_def code_def)
  from heading_records
    [of "''2. Methods''" init "''methodology''" "''3. Results''" "''results''" ?body ?t
        "[''preface line.'']" "[''good.'']" 1] hyp
  have 1: "\<exists>A B. extract_sections init ?t 1 =
      A @ [\<lparr> title = ''2. Methods'', content = [], page_number = 1, section_type = ''methodology'' \<rparr>,
           \<lparr> title = ''2. Methods'', content = ''We ran trials. twice.'', page_number = 1,
             section_type = ''section'' \<rparr>,
           \<lparr> title = ''3. Results'', content = [], page_number = 1, section_type = ''results'' \<rparr>] @ B"
    unfolding j st by blast
  from heading_records
    [of "''abstract''" init "''abstract''" "''1. Introduction''" "''introduction''" _ ?u
        "[]" "[]" 1] hyp2
  have 2: "\<exists>A B. extract_sections init ?u 1 =
      A @ [\<lparr> title = ''abstract'', content = [], page_number = 1, section_type = ''abstract'' \<rparr>,
           \<lparr> title = ''abstract'', content = [], page_number = 1, section_type = ''section'' \<rparr>,
           \<lparr> title = ''1. Introduction'', content = [], page_number = 1,
             section_type = ''introduction'' \<rparr>] @ B"
    unfolding st2 by blast
  let ?v = "''preface line.'' @ [CHR 0x0A] @ ''2. Methods'' @ [CHR 0x0A] @ ''We ran trials.''"
  have hyp3: "strip ''2. Methods'' \<noteq> [] \<and>
    identify_section_type init (strip ''2. Methods'') = Some ''methodology'' \<and>
    named (Some ''methodology'') \<and>
    (\<forall>b\<in>set [''We ran trials.'']. strip b = [] \<or> \<not> named (identify_section_type init (strip b))) \<and>
    split_nl ?v = [''preface line.''] @ ''2. Methods'' # [''We ran trials.'']"
    by (simp add: st ty named_def)
  have j3: "filter (\<lambda>b. b \<noteq> []) (map strip [''We ran trials.'']) = [''We ran trials.'']"
    by (simp add: st)
  from heading_records
    [of "''2. Methods''" init "''methodology''" _ _ "[''We ran trials.'']" ?v
        "[''preface line.'']" _ 1] hyp3
  have 3: "\<exists>A. extract_sections init ?v 1 =
      A @ [\<lparr> title = ''2. Methods'', content = [], page_number = 1, section_type = ''methodology'' \<rparr>,
           \<lparr> title = ''2. Methods'', content = ''We ran trials.'', page_number = 1,
             section_type = ''section'' \<rparr>]"
    unfolding j3 st by (simp add: st)
  let ?w = "''preface line.'' @ [CHR 0x0A] @ ''2. Methods'' @ [CHR 0x0A] @ ''  ''"
  have st4: "strip ''  '' = []"
    by (simp add: strip_def isspace_def code_def)
  have hyp4: "strip ''2. Methods'' \<noteq> [] \<and>
    identify_section_type init (strip ''2. Methods'') = Some ''methodology'' \<and>
    named (Some ''methodology'') \<and>
    (\<forall>b\<in>set [''  '']. strip b = [] \<or> \<not> named (identify_section_type init (strip b))) \<and>
    split_nl ?w = [''preface line.''] @ ''2. Methods'' # [''  '']"
    by (simp add: st st4 ty named_def)
  have j4: "filter (\<lambda>b. b \<noteq> []) (map strip [''  '']) = []"
    by (simp add: st4)
  from heading_records
    [of "''2. Methods''" init "''methodology''" _ _ "[''  '']" ?w
        "[''preface line.'']" _ 1] hyp4
  have 4: "\<exists>A. extract_sections init ?w 1 =
      A @ [\<lparr> title = ''2. Methods'', content = [], page_number = 1,
             section_type = ''methodology'' \<rparr>]"
    unfolding j4 st by (simp add: st)
  from 1 2 3 4 show ?thesis by blast
qed

text \<open>
  C2, as it is stated, fails for the last heading of a page: a page that is the one line
  \<^verbatim>\<open>methods\<close>, a methodology heading, gives one record, not two.
\<close>

theorem last_heading_single_record_counterexample:
  "identify_section_type init (strip ''methods'') = Some ''methodology'' \<and>
   named (identify_section_type init (strip ''methods'')) \<and>
   extract_sections init ''methods'' 1 =
     [\<lparr> title = ''methods'', content = [], page_number = 1, section_type = ''methodology'' \<rparr>] \<and>
   length (extract_sections init ''methods'' 1) = 1"
proof -
  have "identify_section_type init (strip ''methods'') = Some ''methodology''"
    by code_simp
  moreover have "extract_sections init ''methods'' 1 =
     [\<lparr> title = ''methods'', content = [], page_number = 1, section_type = ''methodology'' \<rparr>]"
    by code_simp
  ultimately show ?thesis by (simp add: named_def)
qed

section \<open>The abstract of the document\<close>

text \<open>
  C1, as the code has it. Every line that matches the abstract heading rule before the
  loop stops sets the start again, so the start is one past the last such line before the
  end (the last of the page when no end is found). The end is the first line after the
  first abstract heading that matches \<^verbatim>\<open>^\d+\.\<close>, the introduction pattern or the keywords
  pattern; without an end, ten lines are taken from the start. The lines in the range,
  joined with single spaces and trimmed, are returned when longer than 50 characters, and
  nothing otherwise.
\<close>

theorem extract_abstract_last_heading:
  "extract_abstract init text = Inr (abstract_amended text)"
proof (cases "first_index is_abstract (split_nl text)")
  case None
  then show ?thesis
    by (simp add: extract_abstract_def abstract_amended_def abstract_loop_unstarted)
next
  case (Some h)
  define lines where "lines = split_nl text"
  define R where "R = drop (Suc h) lines"
  have fi: "first_index is_abstract lines = Some h" using Some by (simp add: lines_def)
  have lines: "lines = take (Suc h) lines @ R" by (simp add: R_def)
  have loop: "abstract_loop init 0 lines None =
      Inr (case first_index is_end R of
            None \<Rightarrow>
              (Some (case last_index is_abstract R of None \<Rightarrow> h + 1 | Some k \<Rightarrow> h + 1 + k + 1), None)
          | Some j \<Rightarrow>
              (Some (case last_index is_abstract (take j R) of None \<Rightarrow> h + 1 | Some k \<Rightarrow> h + 1 + k + 1),
               Some (h + 1 + j)))"
    using abstract_loop_started [of "h + 1" "h + 1" R]
    by (simp add: abstract_loop_unstarted fi R_def)
  show ?thesis
  proof (cases "first_index is_end R")
    case None
    have "last_index is_abstract lines =
        Some (case last_index is_abstract R of None \<Rightarrow> h | Some k \<Rightarrow> h + 1 + k)"
      using last_index_scope [OF fi, of R] lines by simp
    then have am: "abstract_amended text =
        abstract_between lines
          ((case last_index is_abstract R of None \<Rightarrow> h | Some k \<Rightarrow> h + 1 + k) + 1) None"
      using None fi by (simp add: abstract_amended_def lines_def [symmetric] R_def [symmetric])
    have "extract_abstract init text =
        Inr (abstract_between lines
          (case last_index is_abstract R of None \<Rightarrow> h + 1 | Some k \<Rightarrow> h + 1 + k + 1) None)"
      using None
      by (simp add: extract_abstract_def lines_def [symmetric] loop abstract_between_def Let_def
          split: option.splits)
    with am show ?thesis by (simp split: option.splits)
  next
    case (Some j)
    have "take (Suc h + j) lines = take (Suc h) lines @ take j (drop (Suc h) lines)"
      by (rule take_add)
    then have "take (h + 1 + j) lines = take (Suc h) lines @ take j R"
      by (simp add: R_def)
    then have "last_index is_abstract (take (h + 1 + j) lines) =
        Some (case last_index is_abstract (take j R) of None \<Rightarrow> h | Some k \<Rightarrow> h + 1 + k)"
      using last_index_scope [OF fi, of "take j R"] by simp
    then have am: "abstract_amended text =
        abstract_between lines
          ((case last_index is_abstract (take j R) of None \<Rightarrow> h | Some k \<Rightarrow> h + 1 + k) + 1)
          (Some (h + 1 + j))"
      using Some fi by (simp add: abstract_amended_def lines_def [symmetric] R_def [symmetric])
    have "extract_abstract init text =
        Inr (abstract_between lines
          (case last_index is_abstract (take j R) of None \<Rightarrow> h + 1 | Some k \<Rightarrow> h + 1 + k + 1)
          (Some (h + 1 + j)))"
      using Some
      by (simp add: extract_abstract_def lines_def [symmetric] loop abstract_between_def Let_def
          split: option.splits)
    with am show ?thesis by (simp split: option.splits)
  qed
qed

theorem extract_abstract_last_heading_witness:
  "extract_abstract init (''Abstract'' @ [CHR 0x0A] @
       ''This paper examines widget durability across fifty trials in controlled settings.'' @
       [CHR 0x0A] @ ''Keywords: widgets, durability'' @ [CHR 0x0A] @ ''1. Introduction'') =
     Inr (Some ''This paper examines widget durability across fifty trials in controlled settings.'')"
proof -
  have "abstract_amended (''Abstract'' @ [CHR 0x0A] @
       ''This paper examines widget durability across fifty trials in controlled settings.'' @
       [CHR 0x0A] @ ''Keywords: widgets, durability'' @ [CHR 0x0A] @ ''1. Introduction'') =
     Some ''This paper examines widget durability across fifty trials in controlled settings.''"
    by code_simp
  with extract_abstract_last_heading [of "''Abstract'' @ [CHR 0x0A] @
       ''This paper examines widget durability across fifty trials in controlled settings.'' @
       [CHR 0x0A] @ ''Keywords: widgets, durability'' @ [CHR 0x0A] @ ''1. Introduction''"]
  show ?thesis by (simp only:)
qed

text \<open>
  C1, as it is stated, fails on a page whose abstract has a line that begins with
  \<^verbatim>\<open>Summary\<close>: the start moves past that line, the range up to the keywords line is empty,
  and no abstract is returned, where the first heading would give the two lines.
\<close>

theorem extract_abstract_first_heading_counterexample:
  "extract_abstract init (''Abstract'' @ [CHR 0x0A] @
       ''We study widgets in depth over many trials.'' @ [CHR 0x0A] @
       ''Summary statistics are reported for all fifty trials.'' @ [CHR 0x0A] @
       ''Keywords: widgets'') = Inr None \<and>
   abstract_claimed (''Abstract'' @ [CHR 0x0A] @
       ''We study widgets in depth over many trials.'' @ [CHR 0x0A] @
       ''Summary statistics are reported for all fifty trials.'' @ [CHR 0x0A] @
       ''Keywords: widgets'') =
     Some (''We study widgets in depth over many trials. '' @
           ''Summary statistics are reported for all fifty trials.'')"
proof
  show "extract_abstract init (''Abstract'' @ [CHR 0x0A] @
       ''We study widgets in depth over many trials.'' @ [CHR 0x0A] @
       ''Summary statistics are reported for all fifty trials.'' @ [CHR 0x0A] @
       ''Keywords: widgets'') = Inr None"
    by code_simp
  show "abstract_claimed (''Abstract'' @ [CHR 0x0A] @
       ''We study widgets in depth over many trials.'' @ [CHR 0x0A] @
       ''Summary statistics are reported for all fifty trials.'' @ [CHR 0x0A] @
       ''Keywords: widgets'') =
     Some (''We study widgets in depth over many trials. '' @
           ''Summary statistics are reported for all fifty trials.'')"
    by code_simp
qed

end
